theory Spec2Isabelle
  imports Main "HOL-Library.Word"
begin

unbundle bit_operations_syntax

section \<open>Data model (Cache.h)\<close>

type_synonym u8 = "8 word"
type_synonym u32 = "32 word"
type_synonym u64 = "64 word"

text \<open>\<^verbatim>\<open>struct Policy\<close>.\<close>

record Policy =
  cacheSize :: u32
  blockSize :: u32
  blockNum :: u32
  associativity :: u32
  hitLatency :: u32
  missLatency :: u32

text \<open>\<^verbatim>\<open>struct Block\<close>; the fields \<^verbatim>\<open>id\<close> and \<^verbatim>\<open>size\<close> carry the suffix \<open>_b\<close>
  because the plain names are HOL constants.\<close>

record Block =
  valid :: bool
  modified :: bool
  tag :: u32
  id_b :: u32
  size_b :: u32
  lastReference :: u32
  data :: "u8 list"

text \<open>\<^verbatim>\<open>struct Statistics\<close>.\<close>

record Statistics =
  numRead :: u32
  numWrite :: u32
  numHit :: u32
  numMiss :: u32
  totalCycles :: u64

text \<open>The mutable members of \<^verbatim>\<open>class Cache\<close>. The vector \<^verbatim>\<open>blocks\<close> is a function from
  the index to the block; its length is \<open>blockNum\<close> of the policy (set once by
  \<^verbatim>\<open>initCache\<close>). The two pointer members \<^verbatim>\<open>memory\<close> and \<^verbatim>\<open>lowerCache\<close> are not
  fields: the objects they point to are passed to every operation and returned
  updated.\<close>

record Cache =
  statistics :: Statistics
  referenceCounter :: u32
  writeBack :: bool
  writeAllocate :: bool
  policy :: Policy
  blocks :: "nat \<Rightarrow> Block"

text \<open>Every \<^verbatim>\<open>exit(-1)\<close> of the sources, and the trap of \<^verbatim>\<open>%\<close> by zero.\<close>

datatype error =
  PolicyInvalid
  | DivisionByZero
  | InconsistentID nat
  | DataNotInCache
  | IllegalType char

text \<open>Modelled from the spec: the class \<^verbatim>\<open>MemoryManager\<close> (MemoryManager.h and its
  implementation are not among the sources). Section 4.7 of the specification gives
  four operations: \<^verbatim>\<open>isPageExist\<close>, \<^verbatim>\<open>addPage\<close>, \<^verbatim>\<open>getByteNoCache\<close> and
  \<^verbatim>\<open>setByteNoCache\<close>, a paged byte store where the last write to an address wins.
  The page an address belongs to is the field \<open>pageOf\<close>, since the specification
  does not fix the page size.\<close>

record MemoryManager =
  pageOf :: "u32 \<Rightarrow> u32"
  pages :: "u32 \<Rightarrow> bool"
  bytes :: "u32 \<Rightarrow> u8"

definition isPageExist :: "MemoryManager \<Rightarrow> u32 \<Rightarrow> bool" where
  "isPageExist m addr = pages m (pageOf m addr)"

definition addPage :: "MemoryManager \<Rightarrow> u32 \<Rightarrow> MemoryManager" where
  "addPage m addr = m\<lparr>pages := (pages m)(pageOf m addr := True)\<rparr>"

definition getByteNoCache :: "MemoryManager \<Rightarrow> u32 \<Rightarrow> u8" where
  "getByteNoCache m addr = bytes m addr"

definition setByteNoCache :: "MemoryManager \<Rightarrow> u32 \<Rightarrow> u8 \<Rightarrow> MemoryManager" where
  "setByteNoCache m addr val = m\<lparr>bytes := (bytes m)(addr := val)\<rparr>"

section \<open>Address decoding\<close>

text \<open>\<^verbatim>\<open>Cache::isPowerOfTwo\<close>.\<close>

definition isPowerOfTwo :: "u32 \<Rightarrow> bool" where
  "isPowerOfTwo n \<longleftrightarrow> n > 0 \<and> (n AND (n - 1)) = 0"

text \<open>\<^verbatim>\<open>Cache::log2i\<close>; the \<^verbatim>\<open>while (val > 1)\<close> loop is \<open>log2i_loop\<close>.\<close>

function log2i_loop :: "u32 \<Rightarrow> u32 \<Rightarrow> u32" where
  "log2i_loop val ret = (if val > 1 then log2i_loop (drop_bit 1 val) (ret + 1) else ret)"
  by pat_completeness auto
termination
proof (relation "measure (\<lambda>(val, ret). unat val)")
  show "wf (measure (\<lambda>(val :: u32, ret :: u32). unat val))"
    by simp
next
  fix val ret :: u32
  assume "1 < val"
  then have "unat val \<noteq> 0"
    by (auto simp: unat_eq_0)
  then have "unat val div 2 < unat val"
    by simp
  then show "((drop_bit 1 val, ret + 1), (val, ret)) \<in> measure (\<lambda>(val, ret). unat val)"
    by (simp add: unat_drop_bit_eq drop_bit_eq_div unat_div)
qed

declare log2i_loop.simps [simp del]

definition log2i :: "u32 \<Rightarrow> u32" where
  "log2i val = (if val = 0 then - 1 else if val = 1 then 0 else log2i_loop val 0)"

text \<open>The shifts \<^verbatim>\<open><<\<close> and \<^verbatim>\<open>>>\<close> of a 32-bit operand by a 32-bit count. A count of 32 or
  more is undefined in the source; the compiled program shifts by the count modulo 32
  (the shift instructions of x86 read the low five bits of the count), and so do these
  two functions. In \<^verbatim>\<open>getTag\<close> the count \<open>32 - offsetBits - idBits\<close> is 32 for a cache with
  one set of one-byte blocks: the mask is then \<open>(1 << 0) - 1 = 0\<close> and every tag is 0.\<close>

definition shl32 :: "u32 \<Rightarrow> u32 \<Rightarrow> u32" where
  "shl32 x n = push_bit (unat n mod 32) x"

definition shr32 :: "u32 \<Rightarrow> u32 \<Rightarrow> u32" where
  "shr32 x n = drop_bit (unat n mod 32) x"

text \<open>\<^verbatim>\<open>Cache::getTag\<close>, \<^verbatim>\<open>getId\<close>, \<^verbatim>\<open>getOffset\<close>, \<^verbatim>\<open>getAddr\<close>.\<close>

definition getTag :: "Policy \<Rightarrow> u32 \<Rightarrow> u32" where
  "getTag p addr =
    (let offsetBits = log2i (blockSize p);
         idBits = log2i (blockNum p div associativity p);
         mask = shl32 1 (32 - offsetBits - idBits) - 1
     in shr32 addr (offsetBits + idBits) AND mask)"

definition getId :: "Policy \<Rightarrow> u32 \<Rightarrow> u32" where
  "getId p addr =
    (let offsetBits = log2i (blockSize p);
         idBits = log2i (blockNum p div associativity p);
         mask = shl32 1 idBits - 1
     in shr32 addr offsetBits AND mask)"

definition getOffset :: "Policy \<Rightarrow> u32 \<Rightarrow> u32" where
  "getOffset p addr =
    (let bits = log2i (blockSize p);
         mask = shl32 1 bits - 1
     in addr AND mask)"

definition getAddr :: "Policy \<Rightarrow> Block \<Rightarrow> u32" where
  "getAddr p b =
    (let offsetBits = log2i (blockSize p);
         idBits = log2i (blockNum p div associativity p)
     in shl32 (tag b) (offsetBits + idBits) OR shl32 (id_b b) offsetBits)"

section \<open>Construction\<close>

text \<open>\<^verbatim>\<open>Cache::isPolicyValid\<close>. The last test computes \<^verbatim>\<open>blockNum % associativity\<close>,
  which traps when the associativity is 0.\<close>

definition isPolicyValid :: "Policy \<Rightarrow> error + bool" where
  "isPolicyValid p =
    (if \<not> isPowerOfTwo (cacheSize p) then Inr False
     else if \<not> isPowerOfTwo (blockSize p) then Inr False
     else if cacheSize p mod blockSize p \<noteq> 0 then Inr False
     else if blockNum p * blockSize p \<noteq> cacheSize p then Inr False
     else if associativity p = 0 then Inl DivisionByZero
     else if blockNum p mod associativity p \<noteq> 0 then Inr False
     else Inr True)"

text \<open>\<^verbatim>\<open>Cache::initCache\<close>: every slot \<open>i\<close> below \<open>blockNum\<close> is initialised.\<close>

definition initBlock :: "Policy \<Rightarrow> nat \<Rightarrow> Block" where
  "initBlock p i =
    \<lparr>valid = False, modified = False, tag = 0,
     id_b = of_nat (i div unat (associativity p)),
     size_b = blockSize p, lastReference = 0,
     data = replicate (unat (blockSize p)) 0\<rparr>"

definition initCache :: "Policy \<Rightarrow> nat \<Rightarrow> Block" where
  "initCache p = (\<lambda>i. initBlock p i)"

text \<open>The constructor \<^verbatim>\<open>Cache::Cache\<close>.\<close>

definition newCache :: "Policy \<Rightarrow> bool \<Rightarrow> bool \<Rightarrow> error + Cache" where
  "newCache p wb wa =
    (case isPolicyValid p of
       Inl e \<Rightarrow> Inl e
     | Inr False \<Rightarrow> Inl PolicyInvalid
     | Inr True \<Rightarrow>
         Inr \<lparr>statistics = \<lparr>numRead = 0, numWrite = 0, numHit = 0, numMiss = 0, totalCycles = 0\<rparr>,
              referenceCounter = 0, writeBack = wb, writeAllocate = wa,
              policy = p, blocks = initCache p\<rparr>)"

section \<open>Lookup and replacement\<close>

text \<open>\<^verbatim>\<open>Cache::getBlockId\<close>: the loop over the window of the set; the result \<^verbatim>\<open>-1\<close>
  is \<open>None\<close>.\<close>

fun getBlockId_loop :: "(nat \<Rightarrow> Block) \<Rightarrow> u32 \<Rightarrow> u32 \<Rightarrow> nat list \<Rightarrow> error + nat option" where
  "getBlockId_loop bs ident tg [] = Inr None"
| "getBlockId_loop bs ident tg (i # rest) =
    (if id_b (bs i) \<noteq> ident then Inl (InconsistentID i)
     else if valid (bs i) \<and> tag (bs i) = tg then Inr (Some i)
     else getBlockId_loop bs ident tg rest)"

definition getBlockId :: "Cache \<Rightarrow> u32 \<Rightarrow> error + nat option" where
  "getBlockId c addr =
    (let tg = getTag (policy c) addr;
         ident = getId (policy c) addr
     in getBlockId_loop (blocks c) ident tg
          [unat (ident * associativity (policy c)) ..< unat ((ident + 1) * associativity (policy c))])"

text \<open>\<^verbatim>\<open>Cache::inCache\<close>.\<close>

definition inCache :: "Cache \<Rightarrow> u32 \<Rightarrow> error + bool" where
  "inCache c addr = (case getBlockId c addr of Inl e \<Rightarrow> Inl e | Inr r \<Rightarrow> Inr (r \<noteq> None))"

text \<open>\<^verbatim>\<open>Cache::getReplacementBlockId\<close>: the first loop returns the first invalid
  slot, the second keeps the running minimum of \<open>lastReference\<close>.\<close>

fun firstInvalid :: "(nat \<Rightarrow> Block) \<Rightarrow> nat list \<Rightarrow> nat option" where
  "firstInvalid bs [] = None"
| "firstInvalid bs (i # rest) = (if \<not> valid (bs i) then Some i else firstInvalid bs rest)"

fun minReferenceLoop :: "(nat \<Rightarrow> Block) \<Rightarrow> nat list \<Rightarrow> nat \<Rightarrow> u32 \<Rightarrow> nat" where
  "minReferenceLoop bs [] resultId minReference = resultId"
| "minReferenceLoop bs (i # rest) resultId minReference =
    (if lastReference (bs i) < minReference
     then minReferenceLoop bs rest i (lastReference (bs i))
     else minReferenceLoop bs rest resultId minReference)"

definition getReplacementBlockId :: "(nat \<Rightarrow> Block) \<Rightarrow> u32 \<Rightarrow> u32 \<Rightarrow> nat" where
  "getReplacementBlockId bs begin end =
    (case firstInvalid bs [unat begin ..< unat end] of
       Some i \<Rightarrow> i
     | None \<Rightarrow> minReferenceLoop bs [unat begin ..< unat end] (unat begin) (- 1))"

section \<open>The lower neighbour\<close>

text \<open>The member \<^verbatim>\<open>Cache *lowerCache\<close>: \<open>None\<close> is \<^verbatim>\<open>nullptr\<close>; otherwise the two public
  methods of the lower cache, \<^verbatim>\<open>getByte\<close> and \<^verbatim>\<open>setByte\<close>, acting on the state \<open>'l\<close> of
  the lower cache and of everything below it. The memory manager is shared by all
  levels and is threaded through every call. The argument \<^verbatim>\<open>uint32_t *cycles\<close> is
  \<open>None\<close> for \<^verbatim>\<open>nullptr\<close> and \<open>Some v\<close> for a pointer to a variable holding \<open>v\<close>; the
  variable's new value is returned.\<close>

type_synonym 'l getByteT =
  "'l \<Rightarrow> MemoryManager \<Rightarrow> u32 \<Rightarrow> u32 option \<Rightarrow> bool \<Rightarrow> error + (u8 \<times> u32 option \<times> 'l \<times> MemoryManager)"

type_synonym 'l setByteT =
  "'l \<Rightarrow> MemoryManager \<Rightarrow> u32 \<Rightarrow> u8 \<Rightarrow> u32 option \<Rightarrow> error + (u32 option \<times> 'l \<times> MemoryManager)"

type_synonym 'l LowerCache = "'l getByteT \<times> 'l setByteT"

section \<open>Write-back and fill\<close>

text \<open>\<^verbatim>\<open>Cache::writeBlockToLowerLevel\<close>: one loop per branch, over \<open>i < b.size\<close>. The
  lower \<^verbatim>\<open>setByte\<close> is called without a cycles pointer.\<close>

fun writeMemory_loop :: "u32 \<Rightarrow> u8 list \<Rightarrow> nat list \<Rightarrow> MemoryManager \<Rightarrow> MemoryManager" where
  "writeMemory_loop addrBegin dat [] m = m"
| "writeMemory_loop addrBegin dat (i # rest) m =
    writeMemory_loop addrBegin dat rest (setByteNoCache m (addrBegin + of_nat i) (dat ! i))"

fun writeLower_loop ::
  "'l setByteT \<Rightarrow> u32 \<Rightarrow> u8 list \<Rightarrow> nat list \<Rightarrow> 'l \<Rightarrow> MemoryManager \<Rightarrow> error + ('l \<times> MemoryManager)" where
  "writeLower_loop lset addrBegin dat [] l m = Inr (l, m)"
| "writeLower_loop lset addrBegin dat (i # rest) l m =
    (case lset l m (addrBegin + of_nat i) (dat ! i) None of
       Inl e \<Rightarrow> Inl e
     | Inr (cyc, l', m') \<Rightarrow> writeLower_loop lset addrBegin dat rest l' m')"

definition writeBlockToLowerLevel ::
  "'l LowerCache option \<Rightarrow> Policy \<Rightarrow> Block \<Rightarrow> 'l \<Rightarrow> MemoryManager \<Rightarrow> error + ('l \<times> MemoryManager)" where
  "writeBlockToLowerLevel lowerCache p b l m =
    (let addrBegin = getAddr p b
     in case lowerCache of
          None \<Rightarrow> Inr (l, writeMemory_loop addrBegin (data b) [0 ..< unat (size_b b)] m)
        | Some lc \<Rightarrow> writeLower_loop (snd lc) addrBegin (data b) [0 ..< unat (size_b b)] l m)"

text \<open>The two fetch loops of \<^verbatim>\<open>Cache::loadBlockFromLowerLevel\<close>, over
  \<open>blockAddrBegin \<le> i < blockAddrBegin + 1\<close> in 32-bit arithmetic.\<close>

fun fetchLower_loop ::
  "'l getByteT \<Rightarrow> u32 \<Rightarrow> bool \<Rightarrow> nat list \<Rightarrow> u8 list \<Rightarrow> u32 option \<Rightarrow> 'l \<Rightarrow> MemoryManager
    \<Rightarrow> error + (u8 list \<times> u32 option \<times> 'l \<times> MemoryManager)" where
  "fetchLower_loop lget blockAddrBegin is_prefetch [] dat cycles l m = Inr (dat, cycles, l, m)"
| "fetchLower_loop lget blockAddrBegin is_prefetch (i # rest) dat cycles l m =
    (case lget l m (of_nat i) cycles is_prefetch of
       Inl e \<Rightarrow> Inl e
     | Inr (v, cycles', l', m') \<Rightarrow>
         fetchLower_loop lget blockAddrBegin is_prefetch rest
           (dat[unat (of_nat i - blockAddrBegin) := v]) cycles' l' m')"

fun fetchMemory_loop ::
  "MemoryManager \<Rightarrow> u32 \<Rightarrow> nat list \<Rightarrow> u8 list \<Rightarrow> u32 option \<Rightarrow> u8 list \<times> u32 option" where
  "fetchMemory_loop m blockAddrBegin [] dat cycles = (dat, cycles)"
| "fetchMemory_loop m blockAddrBegin (i # rest) dat cycles =
    fetchMemory_loop m blockAddrBegin rest
      (dat[unat (of_nat i - blockAddrBegin) := getByteNoCache m (of_nat i)])
      (map_option (\<lambda>cy. cy + 100) cycles)"

definition addCycles :: "Cache \<Rightarrow> u32 \<Rightarrow> Cache" where
  "addCycles c n =
    c\<lparr>statistics := (statistics c)\<lparr>totalCycles := totalCycles (statistics c) + ucast n\<rparr>\<rparr>"

text \<open>\<^verbatim>\<open>Cache::loadBlockFromLowerLevel\<close>, in the order of the source: the new block
  descriptor, the fetch of its data, the choice of the victim, the write-back of a
  dirty victim, and the overwriting of the slot. The source leaves
  \<^verbatim>\<open>newBlock.lastReference\<close> uninitialised; it is 0 here, and both callers overwrite
  it as soon as they have looked the new block up.\<close>

definition newBlock :: "Policy \<Rightarrow> u32 \<Rightarrow> u8 list \<Rightarrow> Block" where
  "newBlock p addr dat =
     \<lparr>valid = True, modified = False, tag = getTag p addr, id_b = getId p addr,
      size_b = blockSize p, lastReference = 0, data = dat\<rparr>"

definition fetchBlock ::
  "'l LowerCache option \<Rightarrow> Policy \<Rightarrow> 'l \<Rightarrow> MemoryManager \<Rightarrow> u32 \<Rightarrow> u32 option \<Rightarrow> bool
    \<Rightarrow> error + (u8 list \<times> u32 option \<times> 'l \<times> MemoryManager)" where
  "fetchBlock lowerCache p l m addr cycles is_prefetch =
    (let bsz = blockSize p;
         dat0 = replicate (unat bsz) 0;
         blockAddrBegin = addr AND NOT (bsz - 1);
         range = [unat blockAddrBegin ..< unat (blockAddrBegin + 1)]
     in case lowerCache of
          Some lc \<Rightarrow> fetchLower_loop (fst lc) blockAddrBegin is_prefetch range dat0 cycles l m
        | None \<Rightarrow>
            (case fetchMemory_loop m blockAddrBegin range dat0 cycles of
               (dat, cycles') \<Rightarrow> Inr (dat, cycles', l, m)))"

definition writeBackVictim ::
  "'l LowerCache option \<Rightarrow> Cache \<Rightarrow> Block \<Rightarrow> 'l \<Rightarrow> MemoryManager
    \<Rightarrow> error + (Cache \<times> 'l \<times> MemoryManager)" where
  "writeBackVictim lowerCache c replaceBlock l m =
    (if writeBack c \<and> valid replaceBlock \<and> modified replaceBlock
     then (case writeBlockToLowerLevel lowerCache (policy c) replaceBlock l m of
             Inl e \<Rightarrow> Inl e
           | Inr (l', m') \<Rightarrow> Inr (addCycles c (missLatency (policy c)), l', m'))
     else Inr (c, l, m))"

definition loadBlockFromLowerLevel ::
  "'l LowerCache option \<Rightarrow> Cache \<Rightarrow> 'l \<Rightarrow> MemoryManager \<Rightarrow> u32 \<Rightarrow> u32 option \<Rightarrow> bool
    \<Rightarrow> error + (u32 option \<times> Cache \<times> 'l \<times> MemoryManager)" where
  "loadBlockFromLowerLevel lowerCache c l m addr cycles is_prefetch =
    (case fetchBlock lowerCache (policy c) l m addr cycles is_prefetch of
       Inl e \<Rightarrow> Inl e
     | Inr (dat, cycles1, l1, m1) \<Rightarrow>
        (let ident = getId (policy c) addr;
             blockIdBegin = ident * associativity (policy c);
             blockIdEnd = (ident + 1) * associativity (policy c);
             replaceId = getReplacementBlockId (blocks c) blockIdBegin blockIdEnd;
             replaceBlock = blocks c replaceId
         in case writeBackVictim lowerCache c replaceBlock l1 m1 of
              Inl e \<Rightarrow> Inl e
            | Inr (c2, l2, m2) \<Rightarrow>
                Inr (cycles1,
                     c2\<lparr>blocks := (blocks c2)(replaceId := newBlock (policy c) addr dat)\<rparr>,
                     l2, m2)))"

section \<open>Reads and writes\<close>

definition tick :: "Cache \<Rightarrow> Cache" where
  \<comment> \<open>\<^verbatim>\<open>referenceCounter++\<close>\<close>
  "tick c = c\<lparr>referenceCounter := referenceCounter c + 1\<rparr>"

definition countRead :: "Cache \<Rightarrow> Cache" where
  \<comment> \<open>\<^verbatim>\<open>statistics.numRead++\<close>\<close>
  "countRead c = c\<lparr>statistics := (statistics c)\<lparr>numRead := numRead (statistics c) + 1\<rparr>\<rparr>"

definition countWrite :: "Cache \<Rightarrow> Cache" where
  \<comment> \<open>\<^verbatim>\<open>statistics.numWrite++\<close>\<close>
  "countWrite c = c\<lparr>statistics := (statistics c)\<lparr>numWrite := numWrite (statistics c) + 1\<rparr>\<rparr>"

definition touch :: "Cache \<Rightarrow> nat \<Rightarrow> Cache" where
  \<comment> \<open>\<^verbatim>\<open>blocks[blockId].lastReference = referenceCounter\<close>\<close>
  "touch c blockId =
    c\<lparr>blocks := (blocks c)(blockId := (blocks c blockId)\<lparr>lastReference := referenceCounter c\<rparr>)\<rparr>"

definition countHit :: "Cache \<Rightarrow> Cache" where
  \<comment> \<open>\<^verbatim>\<open>statistics.numHit++; statistics.totalCycles += policy.hitLatency\<close>\<close>
  "countHit c =
    addCycles (c\<lparr>statistics := (statistics c)\<lparr>numHit := numHit (statistics c) + 1\<rparr>\<rparr>)
      (hitLatency (policy c))"

definition countMiss :: "Cache \<Rightarrow> Cache" where
  \<comment> \<open>\<^verbatim>\<open>statistics.numMiss++; statistics.totalCycles += policy.missLatency\<close>\<close>
  "countMiss c =
    addCycles (c\<lparr>statistics := (statistics c)\<lparr>numMiss := numMiss (statistics c) + 1\<rparr>\<rparr>)
      (missLatency (policy c))"

definition store :: "Cache \<Rightarrow> nat \<Rightarrow> u32 \<Rightarrow> u8 \<Rightarrow> Cache" where
  \<comment> \<open>\<^verbatim>\<open>modified = true; lastReference = referenceCounter; data[offset] = val\<close>\<close>
  "store c blockId offset val =
    c\<lparr>blocks := (blocks c)(blockId := (blocks c blockId)
          \<lparr>modified := True, lastReference := referenceCounter c,
           data := (data (blocks c blockId))[unat offset := val]\<rparr>)\<rparr>"

text \<open>\<^verbatim>\<open>Cache::getByte\<close>.\<close>

definition getByte ::
  "'l LowerCache option \<Rightarrow> Cache \<Rightarrow> 'l \<Rightarrow> MemoryManager \<Rightarrow> u32 \<Rightarrow> u32 option \<Rightarrow> bool
    \<Rightarrow> error + (u8 \<times> u32 option \<times> Cache \<times> 'l \<times> MemoryManager)" where
  "getByte lowerCache c0 l m addr cycles is_prefetch =
    (let c1 = tick c0;
         c2 = (if \<not> is_prefetch then countRead c1 else c1)
     in case getBlockId c2 addr of
          Inl e \<Rightarrow> Inl e
        | Inr (Some blockId) \<Rightarrow>
            (let offset = getOffset (policy c2) addr;
                 c3 = touch (countHit c2) blockId
             in Inr (data (blocks c3 blockId) ! unat offset,
                     map_option (\<lambda>cy. hitLatency (policy c2)) cycles, c3, l, m))
        | Inr None \<Rightarrow>
            (let c3 = (if \<not> is_prefetch then countMiss c2 else c2)
             in case loadBlockFromLowerLevel lowerCache c3 l m addr cycles is_prefetch of
                  Inl e \<Rightarrow> Inl e
                | Inr (cycles', c4, l', m') \<Rightarrow>
                    (case getBlockId c4 addr of
                       Inl e \<Rightarrow> Inl e
                     | Inr (Some blockId) \<Rightarrow>
                         (let offset = getOffset (policy c4) addr;
                              c5 = touch c4 blockId
                          in Inr (data (blocks c5 blockId) ! unat offset, cycles', c5, l', m'))
                     | Inr None \<Rightarrow> Inl DataNotInCache)))"

text \<open>\<^verbatim>\<open>Cache::setByte\<close>.\<close>

definition setByte ::
  "'l LowerCache option \<Rightarrow> Cache \<Rightarrow> 'l \<Rightarrow> MemoryManager \<Rightarrow> u32 \<Rightarrow> u8 \<Rightarrow> u32 option
    \<Rightarrow> error + (u32 option \<times> Cache \<times> 'l \<times> MemoryManager)" where
  "setByte lowerCache c0 l m addr val cycles =
    (let c1 = tick c0;
         c2 = countWrite c1
     in case getBlockId c2 addr of
          Inl e \<Rightarrow> Inl e
        | Inr (Some blockId) \<Rightarrow>
            (let offset = getOffset (policy c2) addr;
                 c3 = store (countHit c2) blockId offset val
             in if \<not> writeBack c3
                then (case writeBlockToLowerLevel lowerCache (policy c3) (blocks c3 blockId) l m of
                        Inl e \<Rightarrow> Inl e
                      | Inr (l', m') \<Rightarrow>
                          Inr (map_option (\<lambda>cy. hitLatency (policy c3)) cycles,
                               addCycles c3 (missLatency (policy c3)), l', m'))
                else Inr (map_option (\<lambda>cy. hitLatency (policy c3)) cycles, c3, l, m))
        | Inr None \<Rightarrow>
            (let c3 = countMiss c2
             in if writeAllocate c3
                then (case loadBlockFromLowerLevel lowerCache c3 l m addr cycles False of
                        Inl e \<Rightarrow> Inl e
                      | Inr (cycles', c4, l', m') \<Rightarrow>
                          (case getBlockId c4 addr of
                             Inl e \<Rightarrow> Inl e
                           | Inr (Some blockId) \<Rightarrow>
                               Inr (cycles', store c4 blockId (getOffset (policy c4) addr) val, l', m')
                           | Inr None \<Rightarrow> Inl DataNotInCache))
                else (case lowerCache of
                        None \<Rightarrow> Inr (cycles, c3, l, setByteNoCache m addr val)
                      | Some lc \<Rightarrow>
                          (case snd lc l m addr val None of
                             Inl e \<Rightarrow> Inl e
                           | Inr (cyc, l', m') \<Rightarrow> Inr (cycles, c3, l', m')))))"

text \<open>A cache together with its own lower neighbour, seen from the level above: the
  state is the pair of this cache and the state below it.\<close>

definition asLower :: "'l LowerCache option \<Rightarrow> (Cache \<times> 'l) LowerCache" where
  "asLower lowerCache =
    ((\<lambda>(c, l) m addr cycles is_prefetch.
        case getByte lowerCache c l m addr cycles is_prefetch of
          Inl e \<Rightarrow> Inl e
        | Inr (v, cycles', c', l', m') \<Rightarrow> Inr (v, cycles', (c', l'), m')),
     (\<lambda>(c, l) m addr val cycles.
        case setByte lowerCache c l m addr val cycles of
          Inl e \<Rightarrow> Inl e
        | Inr (cycles', c', l', m') \<Rightarrow> Inr (cycles', (c', l'), m')))"

section \<open>The driver (MainMulCache.cpp)\<close>

text \<open>The three policies and the hierarchy built by \<^verbatim>\<open>main\<close>.\<close>

definition l1policy :: Policy where
  "l1policy = \<lparr>cacheSize = 16 * 1024, blockSize = 64, blockNum = (16 * 1024) div 64,
     associativity = 1, hitLatency = 1, missLatency = 0\<rparr>"

definition l2policy :: Policy where
  "l2policy = \<lparr>cacheSize = 128 * 1024, blockSize = 64, blockNum = (128 * 1024) div 64,
     associativity = 8, hitLatency = 8, missLatency = 0\<rparr>"

definition l3policy :: Policy where
  "l3policy = \<lparr>cacheSize = 2 * 1024 * 1024, blockSize = 64, blockNum = (2 * 1024 * 1024) div 64,
     associativity = 16, hitLatency = 20, missLatency = 100\<rparr>"

type_synonym hierarchy = "Cache \<times> Cache \<times> Cache \<times> unit"

definition l3lower :: "unit LowerCache option" where
  "l3lower = None"

definition l2lower :: "(Cache \<times> unit) LowerCache option" where
  "l2lower = Some (asLower l3lower)"

definition l1lower :: "(Cache \<times> Cache \<times> unit) LowerCache option" where
  "l1lower = Some (asLower l2lower)"

text \<open>Modelled from the spec: \<^verbatim>\<open>MemoryManager::getByte\<close> and \<^verbatim>\<open>MemoryManager::setByte\<close>,
  which \<^verbatim>\<open>main\<close> calls for every trace record and whose code is not among the sources.
  By section 2 of the specification each event is applied to the top-level cache (the
  one registered with \<^verbatim>\<open>setCache\<close>); no cycles pointer is passed.\<close>

definition memory_getByte ::
  "'l LowerCache option \<Rightarrow> Cache \<Rightarrow> 'l \<Rightarrow> MemoryManager \<Rightarrow> u32 \<Rightarrow> error + (Cache \<times> 'l \<times> MemoryManager)" where
  "memory_getByte lowerCache c l m addr =
    (case getByte lowerCache c l m addr None False of
       Inl e \<Rightarrow> Inl e
     | Inr (v, cycles, c', l', m') \<Rightarrow> Inr (c', l', m'))"

definition memory_setByte ::
  "'l LowerCache option \<Rightarrow> Cache \<Rightarrow> 'l \<Rightarrow> MemoryManager \<Rightarrow> u32 \<Rightarrow> u8 \<Rightarrow> error + (Cache \<times> 'l \<times> MemoryManager)" where
  "memory_setByte lowerCache c l m addr val =
    (case setByte lowerCache c l m addr val None of
       Inl e \<Rightarrow> Inl e
     | Inr (cycles, c', l', m') \<Rightarrow> Inr (c', l', m'))"

text \<open>The local variables of \<^verbatim>\<open>main\<close> that make up the prefetch controller.\<close>

record Prefetcher =
  last_addr :: u32
  stride :: u64
  is_prefetch :: bool
  same_stride_count :: int
  diff_stride_count :: int

definition initPrefetcher :: Prefetcher where
  "initPrefetcher = \<lparr>last_addr = 0, stride = 0, is_prefetch = False,
     same_stride_count = 0, diff_stride_count = 0\<rparr>"

text \<open>The two prefetch loops (\<open>i = 1..3\<close> and \<open>i = 1..2\<close>): the address is
  \<^verbatim>\<open>addr + i * stride\<close>, computed in 64 bits and truncated to 32.\<close>

fun prefetch_loop ::
  "'l LowerCache option \<Rightarrow> u32 \<Rightarrow> u64 \<Rightarrow> nat list \<Rightarrow> Cache \<Rightarrow> 'l \<Rightarrow> MemoryManager
    \<Rightarrow> error + (Cache \<times> 'l \<times> MemoryManager)" where
  "prefetch_loop lowerCache addr strd [] c l m = Inr (c, l, m)"
| "prefetch_loop lowerCache addr strd (i # rest) c l m =
    (let prefetch_addr = (ucast ((ucast addr :: u64) + of_nat i * strd) :: u32)
     in case inCache c prefetch_addr of
          Inl e \<Rightarrow> Inl e
        | Inr True \<Rightarrow> prefetch_loop lowerCache addr strd rest c l m
        | Inr False \<Rightarrow>
            (let m1 = (if \<not> isPageExist m prefetch_addr then addPage m prefetch_addr else m)
             in case getByte lowerCache c l m1 prefetch_addr None True of
                  Inl e \<Rightarrow> Inl e
                | Inr (v, cycles, c', l', m') \<Rightarrow> prefetch_loop lowerCache addr strd rest c' l' m'))"

text \<open>The demand access of one trace record: the page check and the \<^verbatim>\<open>switch\<close>.\<close>

definition demand ::
  "'l LowerCache option \<Rightarrow> char \<times> u32 \<Rightarrow> Cache \<Rightarrow> 'l \<Rightarrow> MemoryManager
    \<Rightarrow> error + (Cache \<times> 'l \<times> MemoryManager)" where
  "demand lowerCache rec c l m =
    (case rec of (type, addr) \<Rightarrow>
      (let m1 = (if \<not> isPageExist m addr then addPage m addr else m)
       in if type = CHR ''r'' then memory_getByte lowerCache c l m1 addr
          else if type = CHR ''w'' then memory_setByte lowerCache c l m1 addr 0
          else Inl (IllegalType type)))"

text \<open>One iteration of the \<^verbatim>\<open>while\<close> loop of \<^verbatim>\<open>main\<close>.\<close>

definition step ::
  "'l LowerCache option \<Rightarrow> char \<times> u32 \<Rightarrow> Prefetcher \<times> Cache \<times> 'l \<times> MemoryManager
    \<Rightarrow> error + (Prefetcher \<times> Cache \<times> 'l \<times> MemoryManager)" where
  "step lowerCache rec st =
    (case st of (pf, c, l, m) \<Rightarrow>
      (case demand lowerCache rec c l m of
         Inl e \<Rightarrow> Inl e
       | Inr (c1, l1, m1) \<Rightarrow>
          (let addr = snd rec;
               new_stride = (ucast addr :: u64) - ucast (last_addr pf);
               pf1 = pf\<lparr>last_addr := addr\<rparr>
           in if \<not> is_prefetch pf1
              then (let pf2 = (if new_stride = stride pf1
                               then pf1\<lparr>same_stride_count := same_stride_count pf1 + 1\<rparr>
                               else pf1\<lparr>stride := new_stride, same_stride_count := 1\<rparr>)
                    in if same_stride_count pf2 \<ge> 3
                       then (let pf3 = pf2\<lparr>is_prefetch := True, diff_stride_count := 0\<rparr>
                             in case prefetch_loop lowerCache addr (stride pf3) [1, 2, 3] c1 l1 m1 of
                                  Inl e \<Rightarrow> Inl e
                                | Inr (c2, l2, m2) \<Rightarrow> Inr (pf3, c2, l2, m2))
                       else Inr (pf2, c1, l1, m1))
              else if new_stride = stride pf1
              then (let pf2 = pf1\<lparr>diff_stride_count := 0\<rparr>
                    in case prefetch_loop lowerCache addr (stride pf2) [1, 2] c1 l1 m1 of
                         Inl e \<Rightarrow> Inl e
                       | Inr (c2, l2, m2) \<Rightarrow> Inr (pf2, c2, l2, m2))
              else (let pf2 = pf1\<lparr>diff_stride_count := diff_stride_count pf1 + 1\<rparr>
                    in if diff_stride_count pf2 > 3
                       then Inr (pf2\<lparr>is_prefetch := False, stride := new_stride,
                                     same_stride_count := 1\<rparr>, c1, l1, m1)
                       else Inr (pf2, c1, l1, m1)))))"

fun run ::
  "'l LowerCache option \<Rightarrow> (char \<times> u32) list \<Rightarrow> Prefetcher \<times> Cache \<times> 'l \<times> MemoryManager
    \<Rightarrow> error + (Prefetcher \<times> Cache \<times> 'l \<times> MemoryManager)" where
  "run lowerCache [] st = Inr st"
| "run lowerCache (rec # trace) st =
    (case step lowerCache rec st of Inl e \<Rightarrow> Inl e | Inr st' \<Rightarrow> run lowerCache trace st')"

text \<open>The driver loop with the prefetch controller disabled, following the words of
  property P6 of the specification: the demand accesses only.\<close>

fun run_noPrefetch ::
  "'l LowerCache option \<Rightarrow> (char \<times> u32) list \<Rightarrow> Cache \<times> 'l \<times> MemoryManager
    \<Rightarrow> error + (Cache \<times> 'l \<times> MemoryManager)" where
  "run_noPrefetch lowerCache [] st = Inr st"
| "run_noPrefetch lowerCache (rec # trace) st =
    (case st of (c, l, m) \<Rightarrow>
       (case demand lowerCache rec c l m of
          Inl e \<Rightarrow> Inl e
        | Inr st' \<Rightarrow> run_noPrefetch lowerCache trace st'))"

text \<open>\<^verbatim>\<open>main\<close> up to the end of the loop: the three caches are constructed (L3 first)
  and the trace is run against L1. The fresh memory manager is the argument \<open>m\<close>.\<close>

definition buildHierarchy :: "error + hierarchy" where
  "buildHierarchy =
    (case newCache l3policy True True of
       Inl e \<Rightarrow> Inl e
     | Inr l3cache \<Rightarrow>
        (case newCache l2policy True True of
           Inl e \<Rightarrow> Inl e
         | Inr l2cache \<Rightarrow>
            (case newCache l1policy True True of
               Inl e \<Rightarrow> Inl e
             | Inr l1cache \<Rightarrow> Inr (l1cache, l2cache, l3cache, ()))))"

definition main_loop ::
  "MemoryManager \<Rightarrow> (char \<times> u32) list \<Rightarrow> error + (Prefetcher \<times> Cache \<times> (Cache \<times> Cache \<times> unit) \<times> MemoryManager)" where
  "main_loop m trace =
    (case buildHierarchy of
       Inl e \<Rightarrow> Inl e
     | Inr (l1cache, lower) \<Rightarrow> run l1lower trace (initPrefetcher, l1cache, lower, m))"

definition main_loop_noPrefetch ::
  "MemoryManager \<Rightarrow> (char \<times> u32) list \<Rightarrow> error + (Cache \<times> (Cache \<times> Cache \<times> unit) \<times> MemoryManager)" where
  "main_loop_noPrefetch m trace =
    (case buildHierarchy of
       Inl e \<Rightarrow> Inl e
     | Inr (l1cache, lower) \<Rightarrow> run_noPrefetch l1lower trace (l1cache, lower, m))"

section \<open>Predicates of the specification\<close>

text \<open>The five constraints of section 4.4 of the specification on a policy, over the
  sizes as natural numbers.\<close>

definition policyConstraints :: "Policy \<Rightarrow> bool" where
  "policyConstraints p \<longleftrightarrow>
     (\<exists>k. unat (cacheSize p) = 2 ^ k) \<and>
     (\<exists>k. unat (blockSize p) = 2 ^ k) \<and>
     unat (blockSize p) dvd unat (cacheSize p) \<and>
     unat (blockNum p) * unat (blockSize p) = unat (cacheSize p) \<and>
     unat (associativity p) dvd unat (blockNum p)"

text \<open>What \<^verbatim>\<open>isPolicyValid\<close> tests: the same, except that the product is the 32-bit
  product of the source, which wraps around.\<close>

definition policyChecks :: "Policy \<Rightarrow> bool" where
  "policyChecks p \<longleftrightarrow>
     (\<exists>k. unat (cacheSize p) = 2 ^ k) \<and>
     (\<exists>k. unat (blockSize p) = 2 ^ k) \<and>
     unat (blockSize p) dvd unat (cacheSize p) \<and>
     blockNum p * blockSize p = cacheSize p \<and>
     unat (associativity p) dvd unat (blockNum p)"

text \<open>A policy whose product \<open>blockNum * blockSize = 65537 * 65536\<close> is not \<open>cacheSize\<close>, but
  wraps around to it in 32 bits.\<close>

definition wrappedPolicy :: Policy where
  "wrappedPolicy = \<lparr>cacheSize = 65536, blockSize = 65536, blockNum = 65537, associativity = 1,
     hitLatency = 1, missLatency = 10\<rparr>"

text \<open>Invariant I1 of the specification: the block in slot \<open>i\<close> carries the index of
  the set \<open>i / associativity\<close>. A cache is well formed when its policy passes
  \<open>isPolicyValid\<close> and I1 holds for every slot of the vector.\<close>

definition idsConsistent :: "Cache \<Rightarrow> bool" where
  "idsConsistent c \<longleftrightarrow>
     (\<forall>i < unat (blockNum (policy c)).
        id_b (blocks c i) = of_nat (i div unat (associativity (policy c))))"

definition wellFormed :: "Cache \<Rightarrow> bool" where
  "wellFormed c \<longleftrightarrow> isPolicyValid (policy c) = Inr True \<and> idsConsistent c"

text \<open>The slots of the set an address maps to: the bounds of the loops in
  \<^verbatim>\<open>getBlockId\<close> and \<^verbatim>\<open>loadBlockFromLowerLevel\<close>.\<close>

definition windowBegin :: "Policy \<Rightarrow> u32 \<Rightarrow> nat" where
  "windowBegin p addr = unat (getId p addr * associativity p)"

definition windowEnd :: "Policy \<Rightarrow> u32 \<Rightarrow> nat" where
  "windowEnd p addr = unat ((getId p addr + 1) * associativity p)"

text \<open>A lower neighbour that never fails on states satisfying \<open>I\<close> and keeps \<open>I\<close>.
  For \<^verbatim>\<open>nullptr\<close> nothing is required: the memory manager cannot fail.\<close>

definition lowerTotal :: "'l LowerCache option \<Rightarrow> ('l \<Rightarrow> bool) \<Rightarrow> bool" where
  "lowerTotal lowerCache I \<longleftrightarrow>
     (case lowerCache of
        None \<Rightarrow> True
      | Some lc \<Rightarrow>
          (\<forall>l m addr cycles pf. I l \<longrightarrow>
             (\<exists>v cycles' l' m'. fst lc l m addr cycles pf = Inr (v, cycles', l', m') \<and> I l')) \<and>
          (\<forall>l m addr val cycles. I l \<longrightarrow>
             (\<exists>cycles' l' m'. snd lc l m addr val cycles = Inr (cycles', l', m') \<and> I l')))"

text \<open>A sequence of reads and writes issued to one cache.\<close>

datatype operation = Read u32 "u32 option" bool | Write u32 u8 "u32 option"

fun applyOps ::
  "'l LowerCache option \<Rightarrow> operation list \<Rightarrow> Cache \<times> 'l \<times> MemoryManager
    \<Rightarrow> error + (Cache \<times> 'l \<times> MemoryManager)" where
  "applyOps lowerCache [] st = Inr st"
| "applyOps lowerCache (Read addr cycles pf # ops) (c, l, m) =
    (case getByte lowerCache c l m addr cycles pf of
       Inl e \<Rightarrow> Inl e
     | Inr (v, cycles', c', l', m') \<Rightarrow> applyOps lowerCache ops (c', l', m'))"
| "applyOps lowerCache (Write addr val cycles # ops) (c, l, m) =
    (case setByte lowerCache c l m addr val cycles of
       Inl e \<Rightarrow> Inl e
     | Inr (cycles', c', l', m') \<Rightarrow> applyOps lowerCache ops (c', l', m'))"

text \<open>Names for the parts of \<^verbatim>\<open>loadBlockFromLowerLevel\<close>: the slot it replaces and
  whether the victim is written back.\<close>

definition replaceIdOf :: "Cache \<Rightarrow> u32 \<Rightarrow> nat" where
  "replaceIdOf c addr =
     getReplacementBlockId (blocks c) (getId (policy c) addr * associativity (policy c))
       ((getId (policy c) addr + 1) * associativity (policy c))"

definition evictsDirty :: "Cache \<Rightarrow> u32 \<Rightarrow> bool" where
  "evictsDirty c addr \<longleftrightarrow>
     writeBack c \<and> valid (blocks c (replaceIdOf c addr)) \<and> modified (blocks c (replaceIdOf c addr))"

text \<open>The cache after the counting at the head of \<^verbatim>\<open>getByte\<close> and of \<^verbatim>\<open>setByte\<close>.\<close>

definition enterRead :: "Cache \<Rightarrow> bool \<Rightarrow> Cache" where
  "enterRead c pf = (if \<not> pf then countRead (tick c) else tick c)"

definition enterWrite :: "Cache \<Rightarrow> Cache" where
  "enterWrite c = countWrite (tick c)"

text \<open>A fresh memory manager for the concrete scenarios: no page exists, every byte
  is 0, pages of 4096 bytes.\<close>

definition emptyMemory :: MemoryManager where
  "emptyMemory = \<lparr>pageOf = (\<lambda>addr. drop_bit 12 addr), pages = (\<lambda>page. False), bytes = (\<lambda>addr. 0)\<rparr>"

text \<open>The policy of the first scenario of section 8 of the specification: 64-byte
  blocks, one set, one way.\<close>

definition oneBlockPolicy :: "u32 \<Rightarrow> u32 \<Rightarrow> Policy" where
  "oneBlockPolicy h ms =
     \<lparr>cacheSize = 64, blockSize = 64, blockNum = 1, associativity = 1,
      hitLatency = h, missLatency = ms\<rparr>"

text \<open>The accounting identity of a level that has seen demand accesses only, in the
  32-bit arithmetic of the counters.\<close>

definition balanced :: "Cache \<Rightarrow> bool" where
  "balanced c \<longleftrightarrow> numHit (statistics c) + numMiss (statistics c)
      = numRead (statistics c) + numWrite (statistics c)"

fun isDemand :: "operation \<Rightarrow> bool" where
  "isDemand (Read addr cycles pf) = (\<not> pf)"
| "isDemand (Write addr val cycles) = True"

text \<open>\<^verbatim>\<open>blockAddrBegin = addr & ~(blockSize - 1)\<close>, the base address of the block of
  \<open>addr\<close>.\<close>

definition blockBase :: "Policy \<Rightarrow> u32 \<Rightarrow> u32" where
  "blockBase p addr = addr AND NOT (blockSize p - 1)"

text \<open>A cache of four one-byte blocks, and a memory whose last byte
  (address \<^verbatim>\<open>0xFFFFFFFF\<close>) is 7.\<close>

definition byteBlockPolicy :: Policy where
  "byteBlockPolicy = \<lparr>cacheSize = 4, blockSize = 1, blockNum = 4, associativity = 1,
     hitLatency = 1, missLatency = 10\<rparr>"

definition lastByteMemory :: MemoryManager where
  "lastByteMemory = setByteNoCache emptyMemory 4294967295 7"

text \<open>The one-block cache (hit latency 1, miss latency 10, write-back and
  write-allocate) after the write \<^verbatim>\<open>w 0\<close> of the value 5: its only block is dirty.\<close>

definition dirtyOneBlock :: "Cache \<times> unit \<times> MemoryManager" where
  "dirtyOneBlock = projr (applyOps None [Write 0 5 None]
     (projr (newCache (oneBlockPolicy 1 10) True True), (), emptyMemory))"




text \<open>The trace \<^verbatim>\<open>r 40\<close>, \<^verbatim>\<open>r 80\<close>, \<^verbatim>\<open>r c0\<close>, \<^verbatim>\<open>r 100\<close> (addresses in hexadecimal): three equal
  strides of one block, then the next block.\<close>

definition strideTrace :: "(char \<times> u32) list" where
  "strideTrace = [(CHR ''r'', 64), (CHR ''r'', 128), (CHR ''r'', 192), (CHR ''r'', 256)]"

text \<open>Invariant I3 of the specification (no two valid blocks of a set share a tag), the
  bound of every reference stamp by the reference counter, and the length of the data
  vectors. A cache is in good state when it is well formed and the three hold; every
  cache reached from the constructor in fewer than \<open>2^32\<close> accesses is.\<close>

definition tagsDistinct :: "Cache \<Rightarrow> bool" where
  "tagsDistinct c \<longleftrightarrow>
     (\<forall>i j. i < unat (blockNum (policy c)) \<and> j < unat (blockNum (policy c)) \<and>
        valid (blocks c i) \<and> valid (blocks c j) \<and>
        i div unat (associativity (policy c)) = j div unat (associativity (policy c)) \<and>
        tag (blocks c i) = tag (blocks c j) \<longrightarrow> i = j)"

definition refsBounded :: "Cache \<Rightarrow> bool" where
  "refsBounded c \<longleftrightarrow>
     (\<forall>i < unat (blockNum (policy c)).
        valid (blocks c i) \<longrightarrow> lastReference (blocks c i) \<le> referenceCounter c)"

definition dataSized :: "Cache \<Rightarrow> bool" where
  "dataSized c \<longleftrightarrow>
     (\<forall>i < unat (blockNum (policy c)). length (data (blocks c i)) = unat (blockSize (policy c)))"

definition goodCache :: "Cache \<Rightarrow> bool" where
  "goodCache c \<longleftrightarrow> wellFormed c \<and> tagsDistinct c \<and> refsBounded c \<and> dataSized c"

text \<open>The situation after a write of \<open>v\<close> to address \<open>A\<close>: slot \<open>a\<close> of the set of \<open>A\<close>
  holds the block of \<open>A\<close> with \<open>v\<close> at the offset of \<open>A\<close>, no other valid block of the
  set carries the same reference stamp, and the blocks of the set referenced later than
  slot \<open>a\<close> have their tags in \<open>T\<close>.\<close>

definition keeps :: "Cache \<Rightarrow> u32 \<Rightarrow> u8 \<Rightarrow> nat \<Rightarrow> u32 set \<Rightarrow> bool" where
  "keeps c A v a T \<longleftrightarrow>
     windowBegin (policy c) A \<le> a \<and> a < windowEnd (policy c) A \<and>
     valid (blocks c a) \<and> tag (blocks c a) = getTag (policy c) A \<and>
     data (blocks c a) ! unat (getOffset (policy c) A) = v \<and>
     (\<forall>i. windowBegin (policy c) A \<le> i \<and> i < windowEnd (policy c) A \<and> i \<noteq> a \<and>
          valid (blocks c i) \<longrightarrow>
          lastReference (blocks c i) \<noteq> lastReference (blocks c a) \<and>
          (lastReference (blocks c a) < lastReference (blocks c i) \<longrightarrow> tag (blocks c i) \<in> T))"

text \<open>The distinct blocks, among the addresses \<open>xs\<close>, that conflict with \<open>A\<close>: same set,
  other tag.\<close>

definition conflictingBlocks :: "Policy \<Rightarrow> u32 \<Rightarrow> u32 list \<Rightarrow> u32 list" where
  "conflictingBlocks p A xs =
     remdups (map (getTag p) (filter (\<lambda>x. getId p x = getId p A \<and> getTag p x \<noteq> getTag p A) xs))"

definition readOps :: "(u32 \<times> u32 option \<times> bool) list \<Rightarrow> operation list" where
  "readOps reads = map (\<lambda>(addr, cycles, pf). Read addr cycles pf) reads"

text \<open>The one-block cache after the write \<^verbatim>\<open>w 1\<close> of the value 5 and the read \<^verbatim>\<open>r 40\<close>
  (hexadecimal) of the one conflicting block.\<close>

definition evictedWrite :: "Cache \<times> unit \<times> MemoryManager" where
  "evictedWrite = projr (applyOps None [Write 1 5 None, Read 64 None False]
     (projr (newCache (oneBlockPolicy 1 10) True True), (), emptyMemory))"



section \<open>Powers of two and the integer logarithm\<close>

lemma and_pred_nat: "0 < n \<Longrightarrow> (n AND (n - 1) = 0) = (\<exists>k. n = 2 ^ k)" for n :: nat
proof (induction n rule: less_induct)
  case (less n)
  show ?case
  proof (cases "even n")
    case True
    then obtain m where m: "n = 2 * m" by (auto elim: evenE)
    with less.prems have mpos: "0 < m" by simp
    have "(n - 1) div 2 = m - 1" using m mpos by (cases m) simp_all
    moreover have "n div 2 = m" using m by simp
    moreover have "\<not> odd n" using True by simp
    ultimately have a: "n AND (n - 1) = 2 * (m AND (m - 1))"
      using and_nat_rec [of n "n - 1"] by simp
    have ih: "(m AND (m - 1) = 0) = (\<exists>k. m = 2 ^ k)"
      using less.IH [of m] m mpos by simp
    have "(\<exists>k. m = 2 ^ k) = (\<exists>k. n = 2 ^ k)"
    proof
      assume "\<exists>k. m = 2 ^ k"
      then obtain k where "m = 2 ^ k" ..
      then have "n = 2 ^ Suc k" using m by simp
      then show "\<exists>k. n = 2 ^ k" ..
    next
      assume "\<exists>k. n = 2 ^ k"
      then obtain k where k: "n = 2 ^ k" ..
      with True have "k \<noteq> 0" by (cases k) auto
      then obtain j where "k = Suc j" by (cases k) auto
      with k m have "m = 2 ^ j" by simp
      then show "\<exists>k. m = 2 ^ k" ..
    qed
    with a ih show ?thesis by simp
  next
    case False
    then obtain m where m: "n = 2 * m + 1" by (auto elim: oddE)
    have "(n - 1) div 2 = m" "n div 2 = m" "\<not> odd (n - 1)" using m by simp_all
    then have a: "n AND (n - 1) = 2 * m"
      using and_nat_rec [of n "n - 1"] by simp
    have "(\<exists>k. n = 2 ^ k) = (m = 0)"
    proof
      assume "\<exists>k. n = 2 ^ k"
      then obtain k where k: "n = 2 ^ k" ..
      with False have "k = 0" by (cases k) auto
      with k m show "m = 0" by simp
    next
      assume "m = 0"
      then have "n = 2 ^ 0" using m by simp
      then show "\<exists>k. n = 2 ^ k" ..
    qed
    with a show ?thesis by simp
  qed
qed

lemma isPowerOfTwo_iff: "isPowerOfTwo n \<longleftrightarrow> (\<exists>k. unat n = 2 ^ k)"
proof (cases "n = 0")
  case True
  then show ?thesis by (simp add: isPowerOfTwo_def)
next
  case False
  then have pos: "0 < unat n" by (simp add: unat_gt_0)
  have "unat (n AND (n - 1)) = unat n AND (unat n - 1)"
    using False by (simp add: unsigned_and_eq unat_minus_one)
  then have "(n AND (n - 1) = 0) = (unat n AND (unat n - 1) = 0)"
    by (metis unat_eq_0)
  with and_pred_nat [OF pos] False show ?thesis
    by (simp add: isPowerOfTwo_def word_greater_zero_iff)
qed

lemma log2i_loop_spec:
  "val \<noteq> 0 \<Longrightarrow> \<exists>k. k < 32 \<and> log2i_loop val ret = ret + of_nat k \<and> 2 ^ k \<le> unat val \<and> unat val < 2 ^ Suc k"
proof (induction val ret rule: log2i_loop.induct)
  case (1 val ret)
  show ?case
  proof (cases "1 < val")
    case True
    then have u: "2 \<le> unat val" by (simp add: word_less_nat_alt)
    have d: "unat (drop_bit 1 val) = unat val div 2"
      by (simp add: unat_drop_bit_eq drop_bit_eq_div unat_div)
    with u have "drop_bit 1 val \<noteq> 0" by (metis unat_eq_0 div_eq_0_iff not_numeral_le_zero not_less zero_neq_numeral)
    from "1.IH" [OF True this] obtain k where k: "k < 32"
      "log2i_loop (drop_bit 1 val) (ret + 1) = ret + 1 + of_nat k"
      "2 ^ k \<le> unat (drop_bit 1 val)" "unat (drop_bit 1 val) < 2 ^ Suc k" by blast
    have lo: "2 ^ Suc k \<le> unat val" using k(3) d by simp
    have hi: "unat val < 2 ^ Suc (Suc k)" using k(4) d by simp
    have "unat val < 2 ^ 32" using unsigned_less [of val] by simp
    with lo have "(2::nat) ^ Suc k < 2 ^ 32" by linarith
    then have k32: "Suc k < 32" by (simp only: power_strict_increasing_iff one_less_numeral_iff semiring_norm)
    have "log2i_loop val ret = ret + of_nat (Suc k)"
      using True k(2) by (subst log2i_loop.simps) simp
    with lo hi k32 show ?thesis by blast
  next
    case False
    with "1.prems" have "val = 1"
      by (metis word_less_nat_alt unat_eq_0 unat_1 less_one linorder_neqE_nat not_less_eq Suc_lessI unat_gt_0 word_unat_eq_iff)
    then have "0 < (32::nat) \<and> log2i_loop val ret = ret + of_nat 0 \<and> 2 ^ 0 \<le> unat val \<and> unat val < 2 ^ Suc 0"
      by (subst log2i_loop.simps) simp
    then show ?thesis by blast
  qed
qed

lemma log2i_spec:
  assumes "val \<noteq> 0"
  shows "unat (log2i val) < 32 \<and> 2 ^ unat (log2i val) \<le> unat val \<and> unat val < 2 ^ Suc (unat (log2i val))"
proof -
  from log2i_loop_spec [OF assms, of 0] obtain k where k: "k < 32"
    "log2i_loop val 0 = of_nat k" "2 ^ k \<le> unat val" "unat val < 2 ^ Suc k" by auto
  have uk: "unat (of_nat k :: u32) = k" using k(1) by (simp add: unat_of_nat)
  show ?thesis
  proof (cases "val = 1")
    case True
    then show ?thesis by (simp add: log2i_def)
  next
    case False
    with assms have "log2i val = of_nat k" by (simp add: log2i_def k(2))
    with uk k show ?thesis by simp
  qed
qed

section \<open>The replacement choice\<close>

lemma firstInvalid_None: "firstInvalid bs xs = None \<longleftrightarrow> (\<forall>i\<in>set xs. valid (bs i))"
  by (induction xs) auto

lemma firstInvalid_Some:
  "firstInvalid bs xs = Some q \<Longrightarrow>
     \<exists>ys zs. xs = ys @ q # zs \<and> \<not> valid (bs q) \<and> (\<forall>i\<in>set ys. valid (bs i))"
proof (induction xs)
  case Nil
  then show ?case by simp
next
  case (Cons i rest)
  show ?case
  proof (cases "valid (bs i)")
    case False
    with Cons.prems have "q = i" by simp
    with False have "i # rest = [] @ q # rest \<and> \<not> valid (bs q) \<and> (\<forall>i\<in>set []. valid (bs i))"
      by simp
    then show ?thesis by blast
  next
    case True
    with Cons.prems have "firstInvalid bs rest = Some q" by simp
    from Cons.IH [OF this] obtain ys zs where
      "rest = ys @ q # zs" "\<not> valid (bs q)" "\<forall>i\<in>set ys. valid (bs i)" by blast
    with True have "i # rest = (i # ys) @ q # zs \<and> \<not> valid (bs q) \<and> (\<forall>j\<in>set (i # ys). valid (bs j))"
      by simp
    then show ?thesis by blast
  qed
qed

lemma minReferenceLoop_spec:
  "minReferenceLoop bs xs r m = q \<Longrightarrow>
     (q = r \<and> (\<forall>i\<in>set xs. m \<le> lastReference (bs i))) \<or>
     (\<exists>ys zs. xs = ys @ q # zs \<and> lastReference (bs q) < m \<and>
        (\<forall>i\<in>set ys. lastReference (bs q) < lastReference (bs i)) \<and>
        (\<forall>i\<in>set zs. lastReference (bs q) \<le> lastReference (bs i)))"
proof (induction xs arbitrary: r m)
  case Nil
  then show ?case by simp
next
  case (Cons i rest)
  show ?case
  proof (cases "lastReference (bs i) < m")
    case True
    with Cons.prems have "minReferenceLoop bs rest i (lastReference (bs i)) = q" by simp
    from Cons.IH [OF this] show ?thesis
    proof
      assume "q = i \<and> (\<forall>j\<in>set rest. lastReference (bs i) \<le> lastReference (bs j))"
      with True have "i # rest = [] @ q # rest \<and> lastReference (bs q) < m \<and>
        (\<forall>j\<in>set []. lastReference (bs q) < lastReference (bs j)) \<and>
        (\<forall>j\<in>set rest. lastReference (bs q) \<le> lastReference (bs j))" by simp
      then show ?thesis by blast
    next
      assume "\<exists>ys zs. rest = ys @ q # zs \<and> lastReference (bs q) < lastReference (bs i) \<and>
        (\<forall>j\<in>set ys. lastReference (bs q) < lastReference (bs j)) \<and>
        (\<forall>j\<in>set zs. lastReference (bs q) \<le> lastReference (bs j))"
      then obtain ys zs where *: "rest = ys @ q # zs" "lastReference (bs q) < lastReference (bs i)"
        "\<forall>j\<in>set ys. lastReference (bs q) < lastReference (bs j)"
        "\<forall>j\<in>set zs. lastReference (bs q) \<le> lastReference (bs j)" by blast
      with True have "i # rest = (i # ys) @ q # zs \<and> lastReference (bs q) < m \<and>
        (\<forall>j\<in>set (i # ys). lastReference (bs q) < lastReference (bs j)) \<and>
        (\<forall>j\<in>set zs. lastReference (bs q) \<le> lastReference (bs j))" by auto
      then show ?thesis by blast
    qed
  next
    case False
    with Cons.prems have "minReferenceLoop bs rest r m = q" by simp
    from Cons.IH [OF this] show ?thesis
    proof
      assume "q = r \<and> (\<forall>j\<in>set rest. m \<le> lastReference (bs j))"
      with False show ?thesis by auto
    next
      assume "\<exists>ys zs. rest = ys @ q # zs \<and> lastReference (bs q) < m \<and>
        (\<forall>j\<in>set ys. lastReference (bs q) < lastReference (bs j)) \<and>
        (\<forall>j\<in>set zs. lastReference (bs q) \<le> lastReference (bs j))"
      then obtain ys zs where *: "rest = ys @ q # zs" "lastReference (bs q) < m"
        "\<forall>j\<in>set ys. lastReference (bs q) < lastReference (bs j)"
        "\<forall>j\<in>set zs. lastReference (bs q) \<le> lastReference (bs j)" by blast
      with False have "i # rest = (i # ys) @ q # zs \<and> lastReference (bs q) < m \<and>
        (\<forall>j\<in>set (i # ys). lastReference (bs q) < lastReference (bs j)) \<and>
        (\<forall>j\<in>set zs. lastReference (bs q) \<le> lastReference (bs j))" by auto
      then show ?thesis by blast
    qed
  qed
qed

lemma upt_split:
  assumes "[b..<e] = ys @ q # zs"
  shows "b \<le> q \<and> q < e \<and> set ys = {b..<q} \<and> set zs = {q+1..<e}"
proof -
  have "q \<in> set [b..<e]" unfolding assms by simp
  then have q: "b \<le> q" "q < e" by simp_all
  have "sorted_wrt (<) (ys @ q # zs)" using sorted_wrt_upt [of b e] unfolding assms .
  then have lt: "\<forall>y\<in>set ys. y < q" and gt: "\<forall>z\<in>set zs. q < z"
    by (simp_all add: sorted_wrt_append)
  have "set [b..<e] = set (ys @ q # zs)" unfolding assms ..
  then have un: "{b..<e} = set ys \<union> insert q (set zs)" by simp
  have ys: "set ys = {b..<q}"
  proof (rule set_eqI)
    fix i
    show "i \<in> set ys \<longleftrightarrow> i \<in> {b..<q}"
    proof
      assume i: "i \<in> set ys"
      then have "i \<in> {b..<e}" unfolding un by simp
      with lt i show "i \<in> {b..<q}" by simp
    next
      assume i: "i \<in> {b..<q}"
      with q have "i \<in> {b..<e}" by simp
      then have "i \<in> set ys \<or> i = q \<or> i \<in> set zs" unfolding un by blast
      moreover have "i \<noteq> q" using i by simp
      moreover have "i \<notin> set zs" using gt i by fastforce
      ultimately show "i \<in> set ys" by simp
    qed
  qed
  have zs: "set zs = {q+1..<e}"
  proof (rule set_eqI)
    fix i
    show "i \<in> set zs \<longleftrightarrow> i \<in> {q+1..<e}"
    proof
      assume i: "i \<in> set zs"
      then have "i \<in> {b..<e}" unfolding un by simp
      moreover have "q < i" using gt i by simp
      ultimately show "i \<in> {q+1..<e}" by simp
    next
      assume i: "i \<in> {q+1..<e}"
      with q have "i \<in> {b..<e}" by simp
      then have "i \<in> set ys \<or> i = q \<or> i \<in> set zs" unfolding un by blast
      moreover have "i \<noteq> q" using i by simp
      moreover have "i \<notin> set ys" using lt i by fastforce
      ultimately show "i \<in> set zs" by simp
    qed
  qed
  from q ys zs show ?thesis by simp
qed

lemma getReplacementBlockId_spec:
  assumes ne: "unat begin < unat end"
    and r_def: "r = getReplacementBlockId bs begin end"
  shows "unat begin \<le> r \<and> r < unat end \<and>
    ((\<exists>i. unat begin \<le> i \<and> i < unat end \<and> \<not> valid (bs i)) \<longrightarrow>
       \<not> valid (bs r) \<and> (\<forall>i. unat begin \<le> i \<and> i < r \<longrightarrow> valid (bs i))) \<and>
    ((\<forall>i. unat begin \<le> i \<and> i < unat end \<longrightarrow> valid (bs i)) \<longrightarrow>
       (\<forall>i. unat begin \<le> i \<and> i < unat end \<longrightarrow> lastReference (bs r) \<le> lastReference (bs i)) \<and>
       (\<forall>i. unat begin \<le> i \<and> i < r \<longrightarrow> lastReference (bs r) < lastReference (bs i)))"
proof (cases "firstInvalid bs [unat begin ..< unat end]")
  case (Some q)
  then have rq: "r = q" by (simp add: r_def getReplacementBlockId_def)
  from firstInvalid_Some [OF Some] obtain ys zs where
    *: "[unat begin ..< unat end] = ys @ q # zs" "\<not> valid (bs q)" "\<forall>i\<in>set ys. valid (bs i)"
    by blast
  from upt_split [OF *(1)] have u: "unat begin \<le> q" "q < unat end" "set ys = {unat begin..<q}"
    by simp_all
  have 1: "\<forall>i. unat begin \<le> i \<and> i < q \<longrightarrow> valid (bs i)"
    using *(3) u(3) by simp
  have 2: "\<not> (\<forall>i. unat begin \<le> i \<and> i < unat end \<longrightarrow> valid (bs i))"
    using *(2) u(1,2) by blast
  show ?thesis
    unfolding rq using u(1,2) *(2) 1 2 by blast
next
  case None
  then have allv: "\<forall>i. unat begin \<le> i \<and> i < unat end \<longrightarrow> valid (bs i)"
    by (simp add: firstInvalid_None)
  then have noinv: "\<not> (\<exists>i. unat begin \<le> i \<and> i < unat end \<and> \<not> valid (bs i))"
    by blast
  from None have "minReferenceLoop bs [unat begin ..< unat end] (unat begin) (- 1) = r"
    by (simp add: r_def getReplacementBlockId_def)
  from minReferenceLoop_spec [OF this] show ?thesis
  proof
    assume a: "r = unat begin \<and> (\<forall>i\<in>set [unat begin..<unat end]. - 1 \<le> lastReference (bs i))"
    then have m: "\<forall>i. unat begin \<le> i \<and> i < unat end \<longrightarrow> lastReference (bs i) = - 1"
      by (simp add: word_order.extremum_unique)
    from a have rb: "r = unat begin" by simp
    have 1: "\<forall>i. unat begin \<le> i \<and> i < unat end \<longrightarrow> lastReference (bs r) \<le> lastReference (bs i)"
      using m ne rb by simp
    have 2: "\<forall>i. unat begin \<le> i \<and> i < r \<longrightarrow> lastReference (bs r) < lastReference (bs i)"
      unfolding rb by auto
    have 3: "unat begin \<le> r" "r < unat end" using rb ne by simp_all
    show ?thesis using 1 2 3 noinv by blast
  next
    assume "\<exists>ys zs. [unat begin..<unat end] = ys @ r # zs \<and> lastReference (bs r) < - 1 \<and>
        (\<forall>i\<in>set ys. lastReference (bs r) < lastReference (bs i)) \<and>
        (\<forall>i\<in>set zs. lastReference (bs r) \<le> lastReference (bs i))"
    then obtain ys zs where *: "[unat begin..<unat end] = ys @ r # zs"
        "\<forall>i\<in>set ys. lastReference (bs r) < lastReference (bs i)"
        "\<forall>i\<in>set zs. lastReference (bs r) \<le> lastReference (bs i)" by blast
    from upt_split [OF *(1)] have u: "unat begin \<le> r" "r < unat end" "set ys = {unat begin..<r}"
      "set zs = {r+1..<unat end}" by simp_all
    have 2: "\<forall>i. unat begin \<le> i \<and> i < r \<longrightarrow> lastReference (bs r) < lastReference (bs i)"
      using *(2) u(3) by simp
    have 1: "\<forall>i. unat begin \<le> i \<and> i < unat end \<longrightarrow> lastReference (bs r) \<le> lastReference (bs i)"
    proof (intro allI impI)
      fix i assume i: "unat begin \<le> i \<and> i < unat end"
      consider "i < r" | "i = r" | "r < i" by linarith
      then show "lastReference (bs r) \<le> lastReference (bs i)"
      proof cases
        case 1 with i 2 have "lastReference (bs r) < lastReference (bs i)" by simp
        then show ?thesis by simp
      next
        case 2 then show ?thesis by simp
      next
        case 3 with i u(4) *(3) show ?thesis by simp
      qed
    qed
    show ?thesis using 1 2 u(1,2) noinv by blast
  qed
qed

section \<open>Policy validation and construction\<close>

lemma word_mod_eq_0_iff: "(a mod b = 0) = (unat b dvd unat a)" for a b :: u32
proof -
  have "(a mod b = 0) = (unat (a mod b) = 0)" by (simp add: unat_eq_0)
  also have "\<dots> = (unat a mod unat b = 0)" by (simp add: unat_mod)
  also have "\<dots> = (unat b dvd unat a)" by (simp add: mod_eq_0_iff_dvd)
  finally show ?thesis .
qed

lemma isPolicyValid_iff: "isPolicyValid p = Inr True \<longleftrightarrow> policyChecks p"
proof (cases "associativity p = 0")
  case True
  have "\<not> policyChecks p"
  proof
    assume pc: "policyChecks p"
    then have "unat (blockNum p) = 0" using True by (simp add: policyChecks_def)
    then have "blockNum p = 0" by (simp add: unat_eq_0)
    with pc have "unat (cacheSize p) = 0" by (auto simp: policyChecks_def)
    with pc show False by (auto simp: policyChecks_def)
  qed
  with True show ?thesis by (simp add: isPolicyValid_def)
next
  case False
  then show ?thesis
    by (simp add: isPolicyValid_def policyChecks_def isPowerOfTwo_iff word_mod_eq_0_iff)
qed

lemma isPolicyValid_cases:
  "isPolicyValid p = Inr True \<or> isPolicyValid p = Inr False \<or> isPolicyValid p = Inl DivisionByZero"
  by (simp add: isPolicyValid_def)

lemma newCache_fails_iff: "isl (newCache p wb wa) \<longleftrightarrow> \<not> policyChecks p"
  using isPolicyValid_cases [of p] isPolicyValid_iff [of p]
  by (auto simp: newCache_def)

lemma newCache_valid:
  "isPolicyValid p = Inr True \<Longrightarrow> newCache p wb wa =
     Inr \<lparr>statistics = \<lparr>numRead = 0, numWrite = 0, numHit = 0, numMiss = 0, totalCycles = 0\<rparr>,
          referenceCounter = 0, writeBack = wb, writeAllocate = wa,
          policy = p, blocks = initCache p\<rparr>"
  by (simp add: newCache_def)

lemma policyConstraints_checks:
  assumes "policyConstraints p"
  shows "policyChecks p"
proof -
  from assms have "unat (blockNum p) * unat (blockSize p) = unat (cacheSize p)"
    by (simp add: policyConstraints_def)
  then have "(of_nat (unat (blockNum p) * unat (blockSize p)) :: u32) = of_nat (unat (cacheSize p))"
    by simp
  then have "blockNum p * blockSize p = cacheSize p" by simp
  with assms show ?thesis by (simp add: policyConstraints_def policyChecks_def)
qed

lemma policyChecks_constraints:
  assumes "policyChecks p" and "unat (blockNum p) * unat (blockSize p) < 2 ^ 32"
  shows "policyConstraints p"
proof -
  from assms(2) have "unat (blockNum p) * unat (blockSize p) < 2 ^ LENGTH(32)" by simp
  then have "unat (blockNum p * blockSize p) = unat (blockNum p) * unat (blockSize p)"
    by (simp only: unat_mult_lem)
  with assms(1) show ?thesis by (auto simp: policyConstraints_def policyChecks_def)
qed

text \<open>Construction fails only for a policy that violates a constraint, and a policy that
  satisfies the five constraints yields a cache whose blocks are all invalid and whose
  statistics are all zero. Where the product \<open>blockNum * blockSize\<close> fits in 32 bits,
  construction fails for every policy that violates a constraint.\<close>

lemma construction_of_valid_policy:
  assumes "policyConstraints p"
  shows "\<exists>c. newCache p wb wa = Inr c \<and>
           (\<forall>i < unat (blockNum p). \<not> valid (blocks c i)) \<and>
           statistics c = \<lparr>numRead = 0, numWrite = 0, numHit = 0, numMiss = 0, totalCycles = 0\<rparr>"
proof -
  from policyConstraints_checks [OF assms] have "isPolicyValid p = Inr True"
    by (simp add: isPolicyValid_iff)
  from newCache_valid [OF this, of wb wa] show ?thesis
    by (simp add: initCache_def initBlock_def)
qed

lemma construction_fails_without_overflow:
  assumes "unat (blockNum p) * unat (blockSize p) < 2 ^ 32"
  shows "isl (newCache p wb wa) \<longleftrightarrow> \<not> policyConstraints p"
  using policyChecks_constraints [OF _ assms] policyConstraints_checks [of p]
  by (auto simp: newCache_fails_iff)

lemma wrappedPolicy_valid: "isPolicyValid wrappedPolicy = Inr True"
  by (simp add: isPolicyValid_def wrappedPolicy_def isPowerOfTwo_def)

text \<open>Claim C8 fails on the code: for the policy with cache size 65536, block size 65536,
  65537 blocks and associativity 1 the product \<open>blockNum * blockSize\<close> is 4295032832, not
  the cache size, so the fourth constraint is violated; in the 32-bit arithmetic of
  \<^verbatim>\<open>isPolicyValid\<close> the product wraps around to 65536, the test passes and the cache is
  constructed.\<close>

theorem construction_accepts_wrapped_product:
  "unat (blockNum wrappedPolicy) * unat (blockSize wrappedPolicy) = 4295032832 \<and>
   unat (cacheSize wrappedPolicy) = 65536 \<and>
   \<not> policyConstraints wrappedPolicy \<and>
   blockNum wrappedPolicy * blockSize wrappedPolicy = cacheSize wrappedPolicy \<and>
   isPolicyValid wrappedPolicy = Inr True \<and>
   newCache wrappedPolicy True True =
     Inr \<lparr>statistics = \<lparr>numRead = 0, numWrite = 0, numHit = 0, numMiss = 0, totalCycles = 0\<rparr>,
          referenceCounter = 0, writeBack = True, writeAllocate = True,
          policy = wrappedPolicy, blocks = initCache wrappedPolicy\<rparr>"
proof -
  have "unat (blockNum wrappedPolicy) * unat (blockSize wrappedPolicy) = 4295032832"
    and "unat (cacheSize wrappedPolicy) = 65536"
    and "blockNum wrappedPolicy * blockSize wrappedPolicy = cacheSize wrappedPolicy"
    by (simp_all add: wrappedPolicy_def)
  moreover from this have "\<not> policyConstraints wrappedPolicy"
    by (simp add: policyConstraints_def)
  moreover note wrappedPolicy_valid newCache_valid [OF wrappedPolicy_valid, of True True]
  ultimately show ?thesis by simp
qed

section \<open>The window of a set and the lookup\<close>

lemma valid_policy_facts:
  assumes "isPolicyValid p = Inr True"
  shows "0 < unat (associativity p)" "unat (associativity p) dvd unat (blockNum p)"
    "0 < unat (blockNum p)" "0 < unat (blockSize p)" "isPowerOfTwo (blockSize p)"
proof -
  from assms have pc: "policyChecks p" by (simp add: isPolicyValid_iff)
  from assms have a0: "associativity p \<noteq> 0"
    by (auto simp: isPolicyValid_def split: if_splits)
  then show "0 < unat (associativity p)" by (simp add: unat_gt_0)
  from pc show "unat (associativity p) dvd unat (blockNum p)" by (simp add: policyChecks_def)
  from assms have p2: "isPowerOfTwo (cacheSize p)" "isPowerOfTwo (blockSize p)"
    and prod: "blockNum p * blockSize p = cacheSize p"
    by (auto simp: isPolicyValid_def split: if_splits)
  from p2 show "isPowerOfTwo (blockSize p)" by simp
  from p2 have "cacheSize p \<noteq> 0" "blockSize p \<noteq> 0" by (auto simp: isPowerOfTwo_def)
  with prod have "blockNum p \<noteq> 0" by auto
  then show "0 < unat (blockNum p)" by (simp add: unat_gt_0)
  from \<open>blockSize p \<noteq> 0\<close> show "0 < unat (blockSize p)" by (simp add: unat_gt_0)
qed

lemma and_mask_bound:
  assumes "k < 32"
  shows "unat (x AND (push_bit k 1 - 1) :: u32) < 2 ^ k"
proof -
  have "push_bit k 1 - 1 = (mask k :: u32)" by (simp add: mask_eq_exp_minus_1)
  moreover have "x AND mask k < (2 ^ k :: u32)"
    using assms by (intro and_mask_less_size) (simp add: word_size)
  ultimately have "unat (x AND (push_bit k 1 - 1)) < unat (2 ^ k :: u32)"
    by (simp add: word_less_nat_alt)
  moreover note this
  moreover have "unat (2 ^ k :: u32) = 2 ^ k"
  proof -
    have "(2 ^ k :: u32) = of_nat (2 ^ k)" by simp
    then have "unat (2 ^ k :: u32) = 2 ^ k mod 2 ^ 32" by (simp only: unat_of_nat) simp
    moreover have "(2 :: nat) ^ k < 2 ^ 32" using assms
      by (simp only: power_strict_increasing_iff one_less_numeral_iff semiring_norm)
    ultimately show ?thesis by simp
  qed
  ultimately show ?thesis by simp
qed

lemma getId_bound:
  assumes "isPolicyValid p = Inr True"
  shows "unat (getId p addr) < unat (blockNum p) div unat (associativity p)"
proof -
  note f = valid_policy_facts [OF assms]
  let ?sets = "blockNum p div associativity p"
  have us: "unat ?sets = unat (blockNum p) div unat (associativity p)" by (simp add: unat_div)
  have "unat (associativity p) \<le> unat (blockNum p)" using f(2,3) by (simp add: dvd_imp_le)
  then have "0 < unat ?sets" using f(1) us by (simp add: div_greater_zero_iff)
  then have "?sets \<noteq> 0" by (auto simp: unat_eq_0)
  from log2i_spec [OF this] have k: "unat (log2i ?sets) < 32" "2 ^ unat (log2i ?sets) \<le> unat ?sets"
    by simp_all
  have "unat (getId p addr) < 2 ^ unat (log2i ?sets)"
    unfolding getId_def Let_def shl32_def using and_mask_bound [OF k(1)] k(1) by simp
  with k(2) us show ?thesis by simp
qed

lemma window_facts:
  assumes "isPolicyValid p = Inr True"
  shows "windowBegin p addr = unat (getId p addr) * unat (associativity p)"
    and "windowEnd p addr = (unat (getId p addr) + 1) * unat (associativity p)"
    and "windowEnd p addr \<le> unat (blockNum p)"
    and "windowBegin p addr < windowEnd p addr"
proof -
  note f = valid_policy_facts [OF assms]
  let ?i = "unat (getId p addr)" and ?A = "unat (associativity p)" and ?N = "unat (blockNum p)"
  have i: "?i < ?N div ?A" by (rule getId_bound [OF assms])
  then have "(?i + 1) * ?A \<le> (?N div ?A) * ?A" by (intro mult_le_mono1) simp
  also have "\<dots> = ?N" using f(2) by simp
  finally have le: "(?i + 1) * ?A \<le> ?N" .
  have N: "?N < 2 ^ 32" using unsigned_less [of "blockNum p"] by simp
  have "?i * ?A \<le> (?i + 1) * ?A" by simp
  with le N have "?i * ?A < 2 ^ LENGTH(32)" by simp
  then show b: "windowBegin p addr = ?i * ?A"
    unfolding windowBegin_def by (simp only: unat_mult_lem)
  have "?i * 1 \<le> ?i * ?A" using f(1) by (intro mult_le_mono2) simp
  then have "?i + 1 \<le> (?i + 1) * ?A" using f(1)
    by (metis add_leD2 less_iff_succ_less_eq mult.commute mult_1 mult_le_cancel2)
  with le N have "?i + unat (1 :: u32) < 2 ^ LENGTH(32)" by simp
  then have u1: "unat (getId p addr + 1) = ?i + 1" by (simp only: unat_add_lem) simp
  from le N have "unat (getId p addr + 1) * ?A < 2 ^ LENGTH(32)" unfolding u1 by simp
  then have "unat ((getId p addr + 1) * associativity p) = unat (getId p addr + 1) * ?A"
    by (simp only: unat_mult_lem)
  then show e: "windowEnd p addr = (?i + 1) * ?A"
    unfolding windowEnd_def u1 .
  from le e show "windowEnd p addr \<le> ?N" by simp
  from b e f(1) show "windowBegin p addr < windowEnd p addr" by simp
qed

lemma window_div:
  assumes "isPolicyValid p = Inr True"
    and "windowBegin p addr \<le> i" "i < windowEnd p addr"
  shows "i div unat (associativity p) = unat (getId p addr)" "i < unat (blockNum p)"
proof -
  note w = window_facts [OF assms(1), of addr]
  note f = valid_policy_facts [OF assms(1)]
  let ?A = "unat (associativity p)" and ?j = "unat (getId p addr)"
  have "?j * ?A \<le> i" "i < (?j + 1) * ?A" using assms(2,3) w by simp_all
  then have "?j \<le> i div ?A" "i div ?A < ?j + 1"
    using f(1) by (simp_all add: less_eq_div_iff_mult_less_eq div_less_iff_less_mult)
  then show "i div ?A = ?j" by simp
  from assms(3) w(3) show "i < unat (blockNum p)" by simp
qed

lemma getBlockId_loop_find:
  "\<forall>i\<in>set xs. id_b (bs i) = ident \<Longrightarrow>
   getBlockId_loop bs ident tg xs = Inr (find (\<lambda>i. valid (bs i) \<and> tag (bs i) = tg) xs)"
  by (induction xs) simp_all

lemma getBlockId_alt: "getBlockId c addr =
  getBlockId_loop (blocks c) (getId (policy c) addr) (getTag (policy c) addr)
     [windowBegin (policy c) addr ..< windowEnd (policy c) addr]"
  by (simp add: getBlockId_def windowBegin_def windowEnd_def Let_def)

lemma wf_window_ids:
  assumes "wellFormed c" "windowBegin (policy c) addr \<le> i" "i < windowEnd (policy c) addr"
  shows "id_b (blocks c i) = getId (policy c) addr"
proof -
  from assms(1) have v: "isPolicyValid (policy c) = Inr True" and ids: "idsConsistent c"
    by (simp_all add: wellFormed_def)
  from window_div [OF v assms(2,3)] ids show ?thesis
    by (simp add: idsConsistent_def)
qed

lemma getBlockId_wf:
  assumes "wellFormed c"
  shows "getBlockId c addr =
    Inr (find (\<lambda>i. valid (blocks c i) \<and> tag (blocks c i) = getTag (policy c) addr)
          [windowBegin (policy c) addr ..< windowEnd (policy c) addr])"
  unfolding getBlockId_alt
  by (rule getBlockId_loop_find) (simp add: wf_window_ids [OF assms])

section \<open>The shape of a fill, of a read and of a write\<close>

lemma fetchLower_loop_length:
  "fetchLower_loop lget base pf xs dat cyc l m = Inr (dat', cyc', l', m') \<Longrightarrow> length dat' = length dat"
proof (induction xs arbitrary: dat cyc l m)
  case Nil
  then show ?case by simp
next
  case (Cons i rest)
  then show ?case
    by (cases "lget l m (of_nat i) cyc pf") (auto split: prod.splits)
qed

lemma fetchMemory_loop_length:
  "fetchMemory_loop m base xs dat cyc = (dat', cyc') \<Longrightarrow> length dat' = length dat"
  by (induction xs arbitrary: dat cyc) auto

lemma fetchBlock_length:
  assumes "fetchBlock lower p l m addr cyc pf = Inr (dat, cyc', l', m')"
  shows "length dat = unat (blockSize p)"
proof (cases lower)
  case None
  with assms show ?thesis
    by (auto simp: fetchBlock_def Let_def split: prod.splits dest: fetchMemory_loop_length)
next
  case (Some lc)
  with assms show ?thesis
    by (auto simp: fetchBlock_def Let_def dest: fetchLower_loop_length)
qed

lemma writeBackVictim_shape:
  "writeBackVictim lower c b l m = Inr (c', l', m') \<Longrightarrow>
     c' = (if writeBack c \<and> valid b \<and> modified b then addCycles c (missLatency (policy c)) else c)"
  by (auto simp: writeBackVictim_def split: if_splits sum.splits)

lemma loadBlock_shape:
  assumes "loadBlockFromLowerLevel lower c l m addr cyc pf = Inr (cyc', c', l', m')"
  shows "\<exists>dat. length dat = unat (blockSize (policy c)) \<and>
     c' = (if evictsDirty c addr then addCycles c (missLatency (policy c)) else c)
            \<lparr>blocks := (blocks c)(replaceIdOf c addr := newBlock (policy c) addr dat)\<rparr>"
proof -
  from assms obtain dat cyc1 l1 m1 where
    f: "fetchBlock lower (policy c) l m addr cyc pf = Inr (dat, cyc1, l1, m1)"
    by (cases "fetchBlock lower (policy c) l m addr cyc pf")
       (auto simp: loadBlockFromLowerLevel_def)
  with assms obtain c2 l2 m2 where
    w: "writeBackVictim lower c (blocks c (replaceIdOf c addr)) l1 m1 = Inr (c2, l2, m2)"
    and c': "c' = c2\<lparr>blocks := (blocks c2)(replaceIdOf c addr := newBlock (policy c) addr dat)\<rparr>"
    by (cases "writeBackVictim lower c (blocks c (replaceIdOf c addr)) l1 m1")
       (auto simp: loadBlockFromLowerLevel_def Let_def replaceIdOf_def)
  from writeBackVictim_shape [OF w] c' have
    "c' = (if evictsDirty c addr then addCycles c (missLatency (policy c)) else c)
            \<lparr>blocks := (blocks c)(replaceIdOf c addr := newBlock (policy c) addr dat)\<rparr>"
    by (simp add: evictsDirty_def addCycles_def)
  with fetchBlock_length [OF f] show ?thesis by blast
qed


subsection \<open>The two paths of a read and of a write\<close>

lemma getBlockId_cong:
  "policy c = policy c' \<Longrightarrow> blocks c = blocks c' \<Longrightarrow> getBlockId c addr = getBlockId c' addr"
  by (simp add: getBlockId_def)

lemma tick_fields [simp]:
  "policy (tick c) = policy c" "blocks (tick c) = blocks c" "statistics (tick c) = statistics c"
  "writeBack (tick c) = writeBack c" "writeAllocate (tick c) = writeAllocate c"
  "referenceCounter (tick c) = referenceCounter c + 1"
  by (simp_all add: tick_def)

lemma countRead_fields [simp]:
  "policy (countRead c) = policy c" "blocks (countRead c) = blocks c"
  "writeBack (countRead c) = writeBack c" "writeAllocate (countRead c) = writeAllocate c"
  "referenceCounter (countRead c) = referenceCounter c"
  by (simp_all add: countRead_def)

lemma countWrite_fields [simp]:
  "policy (countWrite c) = policy c" "blocks (countWrite c) = blocks c"
  "writeBack (countWrite c) = writeBack c" "writeAllocate (countWrite c) = writeAllocate c"
  "referenceCounter (countWrite c) = referenceCounter c"
  by (simp_all add: countWrite_def)

lemma enterRead_fields [simp]:
  "policy (enterRead c pf) = policy c" "blocks (enterRead c pf) = blocks c"
  "writeBack (enterRead c pf) = writeBack c" "writeAllocate (enterRead c pf) = writeAllocate c"
  "referenceCounter (enterRead c pf) = referenceCounter c + 1"
  by (simp_all add: enterRead_def)

lemma enterWrite_fields [simp]:
  "policy (enterWrite c) = policy c" "blocks (enterWrite c) = blocks c"
  "writeBack (enterWrite c) = writeBack c" "writeAllocate (enterWrite c) = writeAllocate c"
  "referenceCounter (enterWrite c) = referenceCounter c + 1"
  by (simp_all add: enterWrite_def)

lemma count_fields [simp]:
  "policy (countHit c) = policy c" "blocks (countHit c) = blocks c"
  "writeBack (countHit c) = writeBack c" "writeAllocate (countHit c) = writeAllocate c"
  "referenceCounter (countHit c) = referenceCounter c"
  "policy (countMiss c) = policy c" "blocks (countMiss c) = blocks c"
  "writeBack (countMiss c) = writeBack c" "writeAllocate (countMiss c) = writeAllocate c"
  "referenceCounter (countMiss c) = referenceCounter c"
  "policy (addCycles c n) = policy c" "blocks (addCycles c n) = blocks c"
  "writeBack (addCycles c n) = writeBack c" "writeAllocate (addCycles c n) = writeAllocate c"
  "referenceCounter (addCycles c n) = referenceCounter c"
  by (simp_all add: countHit_def countMiss_def addCycles_def)

lemma touch_fields [simp]:
  "policy (touch c b) = policy c" "statistics (touch c b) = statistics c"
  "writeBack (touch c b) = writeBack c" "writeAllocate (touch c b) = writeAllocate c"
  "referenceCounter (touch c b) = referenceCounter c"
  "blocks (touch c b) = (blocks c)(b := (blocks c b)\<lparr>lastReference := referenceCounter c\<rparr>)"
  by (simp_all add: touch_def)

lemma store_fields [simp]:
  "policy (store c b off val) = policy c" "statistics (store c b off val) = statistics c"
  "writeBack (store c b off val) = writeBack c" "writeAllocate (store c b off val) = writeAllocate c"
  "referenceCounter (store c b off val) = referenceCounter c"
  "blocks (store c b off val) = (blocks c)(b := (blocks c b)
      \<lparr>modified := True, lastReference := referenceCounter c,
       data := (data (blocks c b))[unat off := val]\<rparr>)"
  by (simp_all add: store_def)

lemma getBlockId_enter [simp]:
  "getBlockId (enterRead c pf) addr = getBlockId c addr"
  "getBlockId (enterWrite c) addr = getBlockId c addr"
  "getBlockId (countMiss c) addr = getBlockId c addr"
  "getBlockId (countHit c) addr = getBlockId c addr"
  by (simp_all add: getBlockId_def)

lemma getByte_hit:
  assumes "getBlockId c addr = Inr (Some b)"
  shows "getByte lower c l m addr cyc pf =
    Inr (data (blocks c b) ! unat (getOffset (policy c) addr),
         map_option (\<lambda>cy. hitLatency (policy c)) cyc,
         touch (countHit (enterRead c pf)) b, l, m)"
  using assms getBlockId_enter(1) [of c pf addr]
  by (simp add: getByte_def Let_def enterRead_def)

lemma getByte_miss:
  assumes "getBlockId c addr = Inr None"
  shows "getByte lower c l m addr cyc pf =
    (case loadBlockFromLowerLevel lower (if \<not> pf then countMiss (enterRead c pf) else enterRead c pf)
            l m addr cyc pf of
       Inl e \<Rightarrow> Inl e
     | Inr (cyc', c4, l', m') \<Rightarrow>
         (case getBlockId c4 addr of
            Inl e \<Rightarrow> Inl e
          | Inr (Some b) \<Rightarrow>
              Inr (data (blocks c4 b) ! unat (getOffset (policy c4) addr), cyc', touch c4 b, l', m')
          | Inr None \<Rightarrow> Inl DataNotInCache))"
  using assms getBlockId_enter(1) [of c pf addr]
  by (simp add: getByte_def Let_def enterRead_def split: sum.splits option.splits)

lemma getByte_error:
  assumes "getBlockId c addr = Inl e"
  shows "getByte lower c l m addr cyc pf = Inl e"
  using assms getBlockId_enter(1) [of c pf addr]
  by (simp add: getByte_def Let_def enterRead_def)

lemma setByte_hit:
  assumes "getBlockId c addr = Inr (Some b)"
  shows "setByte lower c l m addr val cyc =
    (let c3 = store (countHit (enterWrite c)) b (getOffset (policy c) addr) val
     in if \<not> writeBack c
        then (case writeBlockToLowerLevel lower (policy c) (blocks c3 b) l m of
                Inl e \<Rightarrow> Inl e
              | Inr (l', m') \<Rightarrow>
                  Inr (map_option (\<lambda>cy. hitLatency (policy c)) cyc,
                       addCycles c3 (missLatency (policy c)), l', m'))
        else Inr (map_option (\<lambda>cy. hitLatency (policy c)) cyc, c3, l, m))"
  using assms getBlockId_enter(2) [of c addr]
  by (simp add: setByte_def Let_def enterWrite_def split: sum.splits prod.splits)

lemma setByte_miss:
  assumes "getBlockId c addr = Inr None"
  shows "setByte lower c l m addr val cyc =
    (if writeAllocate c
     then (case loadBlockFromLowerLevel lower (countMiss (enterWrite c)) l m addr cyc False of
             Inl e \<Rightarrow> Inl e
           | Inr (cyc', c4, l', m') \<Rightarrow>
               (case getBlockId c4 addr of
                  Inl e \<Rightarrow> Inl e
                | Inr (Some b) \<Rightarrow> Inr (cyc', store c4 b (getOffset (policy c4) addr) val, l', m')
                | Inr None \<Rightarrow> Inl DataNotInCache))
     else (case lower of
             None \<Rightarrow> Inr (cyc, countMiss (enterWrite c), l, setByteNoCache m addr val)
           | Some lc \<Rightarrow>
               (case snd lc l m addr val None of
                  Inl e \<Rightarrow> Inl e
                | Inr (cy, l', m') \<Rightarrow> Inr (cyc, countMiss (enterWrite c), l', m'))))"
  using assms getBlockId_enter(2) [of c addr]
  by (simp add: setByte_def Let_def enterWrite_def split: sum.splits option.splits)

lemma setByte_error:
  assumes "getBlockId c addr = Inl e"
  shows "setByte lower c l m addr val cyc = Inl e"
  using assms getBlockId_enter(2) [of c addr]
  by (simp add: setByte_def Let_def enterWrite_def)

section \<open>The counters\<close>

lemma stat_simps [simp]:
  "statistics (enterRead c pf) = (if pf then statistics c
       else (statistics c)\<lparr>numRead := numRead (statistics c) + 1\<rparr>)"
  "statistics (enterWrite c) = (statistics c)\<lparr>numWrite := numWrite (statistics c) + 1\<rparr>"
  "statistics (countHit c) = (statistics c)\<lparr>numHit := numHit (statistics c) + 1,
       totalCycles := totalCycles (statistics c) + ucast (hitLatency (policy c))\<rparr>"
  "statistics (countMiss c) = (statistics c)\<lparr>numMiss := numMiss (statistics c) + 1,
       totalCycles := totalCycles (statistics c) + ucast (missLatency (policy c))\<rparr>"
  "statistics (addCycles c n) = (statistics c)\<lparr>totalCycles := totalCycles (statistics c) + ucast n\<rparr>"
  by (simp_all add: enterRead_def enterWrite_def countRead_def countWrite_def tick_def
      countHit_def countMiss_def addCycles_def)

lemma loadBlock_statistics:
  assumes "loadBlockFromLowerLevel lower c l m addr cyc pf = Inr (cyc', c', l', m')"
  shows "statistics c' = (statistics c)\<lparr>totalCycles := totalCycles (statistics c)
           + (if evictsDirty c addr then ucast (missLatency (policy c)) else 0)\<rparr>"
    and "referenceCounter c' = referenceCounter c"
    and "writeBack c' = writeBack c" and "writeAllocate c' = writeAllocate c"
proof -
  from loadBlock_shape [OF assms] obtain dat where
    c': "c' = (if evictsDirty c addr then addCycles c (missLatency (policy c)) else c)
            \<lparr>blocks := (blocks c)(replaceIdOf c addr := newBlock (policy c) addr dat)\<rparr>"
    by blast
  then show "statistics c' = (statistics c)\<lparr>totalCycles := totalCycles (statistics c)
           + (if evictsDirty c addr then ucast (missLatency (policy c)) else 0)\<rparr>"
    and "referenceCounter c' = referenceCounter c"
    and "writeBack c' = writeBack c" and "writeAllocate c' = writeAllocate c"
    by simp_all
qed

lemma lookup_cases:
  assumes "\<And>e. getBlockId c addr \<noteq> Inl e"
  obtains (hit) b where "getBlockId c addr = Inr (Some b)" | (miss) "getBlockId c addr = Inr None"
proof (cases "getBlockId c addr")
  case (Inl e)
  with assms [of e] show ?thesis by simp
next
  case (Inr r)
  with hit miss show ?thesis by (cases r) simp_all
qed

lemma getByte_counts:
  assumes "getByte lower c l m addr cyc pf = Inr (v, cyc', c', l', m')"
  shows "numRead (statistics c') = (if pf then numRead (statistics c) else numRead (statistics c) + 1)"
    and "numWrite (statistics c') = numWrite (statistics c)"
    and "\<And>b. getBlockId c addr = Inr (Some b) \<Longrightarrow>
           numHit (statistics c') = numHit (statistics c) + 1 \<and>
           numMiss (statistics c') = numMiss (statistics c) \<and>
           totalCycles (statistics c') = totalCycles (statistics c) + ucast (hitLatency (policy c))"
    and "getBlockId c addr = Inr None \<Longrightarrow>
           numHit (statistics c') = numHit (statistics c) \<and>
           numMiss (statistics c') = (if pf then numMiss (statistics c) else numMiss (statistics c) + 1) \<and>
           totalCycles (statistics c') = totalCycles (statistics c)
              + (if pf then 0 else ucast (missLatency (policy c)))
              + (if evictsDirty c addr then ucast (missLatency (policy c)) else 0)"
proof -
  let ?c3 = "if \<not> pf then countMiss (enterRead c pf) else enterRead c pf"
  have ev: "evictsDirty ?c3 addr = evictsDirty c addr"
    by (simp add: evictsDirty_def replaceIdOf_def)
  obtain r where r: "getBlockId c addr = r" by simp
  have miss: "statistics c' = (statistics ?c3)\<lparr>totalCycles := totalCycles (statistics ?c3)
           + (if evictsDirty c addr then ucast (missLatency (policy c)) else 0)\<rparr>"
    if "getBlockId c addr = Inr None"
  proof -
    from assms that obtain c4 b where
      ld: "loadBlockFromLowerLevel lower ?c3 l m addr cyc pf = Inr (cyc', c4, l', m')"
      and c': "c' = touch c4 b"
      by (auto simp: getByte_miss split: sum.splits option.splits)
    from loadBlock_statistics(1) [OF ld] c' ev show ?thesis by (simp split: if_splits)
  qed
  have hit: "statistics c' = statistics (countHit (enterRead c pf))"
    if "getBlockId c addr = Inr (Some b)" for b
    using assms that by (auto simp: getByte_hit)
  have err: "getBlockId c addr \<noteq> Inl e" for e
    using assms by (auto simp: getByte_error)
  from err have "(\<exists>b. getBlockId c addr = Inr (Some b)) \<or> getBlockId c addr = Inr None"
    by (rule lookup_cases) blast+
  then show "numRead (statistics c') = (if pf then numRead (statistics c) else numRead (statistics c) + 1)"
    and "numWrite (statistics c') = numWrite (statistics c)"
    by (auto simp: hit miss)
  show "numHit (statistics c') = numHit (statistics c) + 1 \<and>
           numMiss (statistics c') = numMiss (statistics c) \<and>
           totalCycles (statistics c') = totalCycles (statistics c) + ucast (hitLatency (policy c))"
    if "getBlockId c addr = Inr (Some b)" for b
    using hit [OF that] by simp
  show "numHit (statistics c') = numHit (statistics c) \<and>
           numMiss (statistics c') = (if pf then numMiss (statistics c) else numMiss (statistics c) + 1) \<and>
           totalCycles (statistics c') = totalCycles (statistics c)
              + (if pf then 0 else ucast (missLatency (policy c)))
              + (if evictsDirty c addr then ucast (missLatency (policy c)) else 0)"
    if "getBlockId c addr = Inr None"
    using miss [OF that] by simp
qed


lemma setByte_counts:
  assumes "setByte lower c l m addr val cyc = Inr (cyc', c', l', m')"
  shows "numWrite (statistics c') = numWrite (statistics c) + 1"
    and "numRead (statistics c') = numRead (statistics c)"
    and "\<And>b. getBlockId c addr = Inr (Some b) \<Longrightarrow>
           numHit (statistics c') = numHit (statistics c) + 1 \<and>
           numMiss (statistics c') = numMiss (statistics c) \<and>
           totalCycles (statistics c') = totalCycles (statistics c) + ucast (hitLatency (policy c))
              + (if writeBack c then 0 else ucast (missLatency (policy c)))"
    and "getBlockId c addr = Inr None \<Longrightarrow>
           numHit (statistics c') = numHit (statistics c) \<and>
           numMiss (statistics c') = numMiss (statistics c) + 1 \<and>
           totalCycles (statistics c') = totalCycles (statistics c) + ucast (missLatency (policy c))
              + (if writeAllocate c \<and> evictsDirty c addr then ucast (missLatency (policy c)) else 0)"
proof -
  let ?c3 = "countMiss (enterWrite c)"
  have ev: "evictsDirty ?c3 addr = evictsDirty c addr"
    by (simp add: evictsDirty_def replaceIdOf_def)
  have miss: "statistics c' = (statistics ?c3)\<lparr>totalCycles := totalCycles (statistics ?c3)
           + (if writeAllocate c \<and> evictsDirty c addr then ucast (missLatency (policy c)) else 0)\<rparr>"
    if n: "getBlockId c addr = Inr None"
  proof (cases "writeAllocate c")
    case True
    from assms n True obtain c4 b where
      ld: "loadBlockFromLowerLevel lower ?c3 l m addr cyc False = Inr (cyc', c4, l', m')"
      and c': "c' = store c4 b (getOffset (policy c4) addr) val"
      by (auto simp: setByte_miss split: sum.splits option.splits)
    from loadBlock_statistics(1) [OF ld] c' ev True show ?thesis by (simp split: if_splits)
  next
    case False
    with assms n have "c' = ?c3"
      by (auto simp: setByte_miss split: sum.splits option.splits)
    with False show ?thesis by simp
  qed
  have hit: "statistics c' = (statistics (countHit (enterWrite c)))
       \<lparr>totalCycles := totalCycles (statistics (countHit (enterWrite c)))
           + (if writeBack c then 0 else ucast (missLatency (policy c)))\<rparr>"
    if "getBlockId c addr = Inr (Some b)" for b
    using assms that by (auto simp: setByte_hit Let_def split: if_splits sum.splits)
  have err: "getBlockId c addr \<noteq> Inl e" for e
    using assms by (auto simp: setByte_error)
  from err have "(\<exists>b. getBlockId c addr = Inr (Some b)) \<or> getBlockId c addr = Inr None"
    by (rule lookup_cases) blast+
  then show "numWrite (statistics c') = numWrite (statistics c) + 1"
    and "numRead (statistics c') = numRead (statistics c)"
    by (auto simp: hit miss)
  show "numHit (statistics c') = numHit (statistics c) + 1 \<and>
           numMiss (statistics c') = numMiss (statistics c) \<and>
           totalCycles (statistics c') = totalCycles (statistics c) + ucast (hitLatency (policy c))
              + (if writeBack c then 0 else ucast (missLatency (policy c)))"
    if "getBlockId c addr = Inr (Some b)" for b
    using hit [OF that] by simp
  show "numHit (statistics c') = numHit (statistics c) \<and>
           numMiss (statistics c') = numMiss (statistics c) + 1 \<and>
           totalCycles (statistics c') = totalCycles (statistics c) + ucast (missLatency (policy c))
              + (if writeAllocate c \<and> evictsDirty c addr then ucast (missLatency (policy c)) else 0)"
    if "getBlockId c addr = Inr None"
    using miss [OF that] by simp
qed

lemma getByte_lookup_cases:
  assumes "getByte lower c l m addr cyc pf = Inr (v, cyc', c', l', m')"
  shows "(\<exists>b. getBlockId c addr = Inr (Some b)) \<or> getBlockId c addr = Inr None"
proof -
  have "getBlockId c addr \<noteq> Inl e" for e using assms by (auto simp: getByte_error)
  then show ?thesis by (rule lookup_cases) blast+
qed

lemma setByte_lookup_cases:
  assumes "setByte lower c l m addr val cyc = Inr (cyc', c', l', m')"
  shows "(\<exists>b. getBlockId c addr = Inr (Some b)) \<or> getBlockId c addr = Inr None"
proof -
  have "getBlockId c addr \<noteq> Inl e" for e using assms by (auto simp: setByte_error)
  then show ?thesis by (rule lookup_cases) blast+
qed

lemma getByte_demand_once:
  assumes "getByte lower c l m addr cyc False = Inr (v, cyc', c', l', m')"
  shows "(numHit (statistics c') = numHit (statistics c) + 1 \<and>
          numMiss (statistics c') = numMiss (statistics c) \<or>
          numHit (statistics c') = numHit (statistics c) \<and>
          numMiss (statistics c') = numMiss (statistics c) + 1) \<and>
         numRead (statistics c') = numRead (statistics c) + 1 \<and>
         numWrite (statistics c') = numWrite (statistics c)"
  using getByte_lookup_cases [OF assms] getByte_counts [OF assms] by auto

lemma setByte_demand_once:
  assumes "setByte lower c l m addr val cyc = Inr (cyc', c', l', m')"
  shows "(numHit (statistics c') = numHit (statistics c) + 1 \<and>
          numMiss (statistics c') = numMiss (statistics c) \<or>
          numHit (statistics c') = numHit (statistics c) \<and>
          numMiss (statistics c') = numMiss (statistics c) + 1) \<and>
         numWrite (statistics c') = numWrite (statistics c) + 1 \<and>
         numRead (statistics c') = numRead (statistics c)"
  using setByte_lookup_cases [OF assms] setByte_counts [OF assms] by auto

lemma applyOps_balanced:
  "applyOps lower ops (c, l, m) = Inr (c', l', m') \<Longrightarrow> \<forall>op\<in>set ops. isDemand op \<Longrightarrow>
     balanced c \<Longrightarrow> balanced c'"
proof (induction ops arbitrary: c l m)
  case Nil
  then show ?case by simp
next
  case (Cons op ops)
  show ?case
  proof (cases op)
    case (Read addr cyc pf)
    with Cons.prems(2) have pf: "\<not> pf" by simp
    from Cons.prems(1) Read pf obtain v cyc1 c1 l1 m1 where
      g: "getByte lower c l m addr cyc False = Inr (v, cyc1, c1, l1, m1)"
      and r: "applyOps lower ops (c1, l1, m1) = Inr (c', l', m')"
      by (auto split: sum.splits)
    from getByte_demand_once [OF g] Cons.prems(3) have "balanced c1"
      by (auto simp: balanced_def)
    from Cons.IH [OF r _ this] Cons.prems(2) show ?thesis by simp
  next
    case (Write addr val cyc)
    from Cons.prems(1) Write obtain cyc1 c1 l1 m1 where
      g: "setByte lower c l m addr val cyc = Inr (cyc1, c1, l1, m1)"
      and r: "applyOps lower ops (c1, l1, m1) = Inr (c', l', m')"
      by (auto split: sum.splits)
    from setByte_demand_once [OF g] Cons.prems(3) have "balanced c1"
      by (auto simp: balanced_def)
    from Cons.IH [OF r _ this] Cons.prems(2) show ?thesis by simp
  qed
qed

section \<open>The fetch loop of a fill\<close>

lemma single_range:
  assumes "base + 1 \<noteq> (0 :: u32)"
  shows "[unat base ..< unat (base + 1)] = [unat base]"
proof -
  have "unat (base + 1) = unat base + 1"
    using assms by (simp add: add.commute unatSuc)
  then show ?thesis by simp
qed

lemma wrapped_range: "[unat (- 1 :: u32) ..< unat (- 1 + 1 :: u32)] = []"
  by simp

lemma replicate_update_head:
  "0 < n \<Longrightarrow> (replicate n x)[0 := v] = v # replicate (n - 1) x"
  by (cases n) simp_all

lemma fetchBlock_single:
  assumes "blockBase p addr + 1 \<noteq> 0" and "0 < unat (blockSize p)"
  shows "fetchBlock lower p l m addr cyc pf =
    (case lower of
       Some lc \<Rightarrow>
         (case fst lc l m (blockBase p addr) cyc pf of
            Inl e \<Rightarrow> Inl e
          | Inr (v, cyc', l', m') \<Rightarrow>
              Inr (v # replicate (unat (blockSize p) - 1) 0, cyc', l', m'))
     | None \<Rightarrow>
         Inr (getByteNoCache m (blockBase p addr) # replicate (unat (blockSize p) - 1) 0,
              map_option (\<lambda>cy. cy + 100) cyc, l, m))"
  using single_range [OF assms(1)] assms(2)
  by (simp add: fetchBlock_def Let_def blockBase_def [symmetric] replicate_update_head
      split: option.splits sum.splits prod.splits)

lemma fetchBlock_wrapped:
  assumes "blockBase p addr + 1 = 0"
  shows "fetchBlock lower p l m addr cyc pf = Inr (replicate (unat (blockSize p)) 0, cyc, l, m)"
proof -
  from assms have "blockBase p addr = - 1" by (simp add: eq_neg_iff_add_eq_0)
  then show ?thesis
    by (simp add: fetchBlock_def Let_def blockBase_def [symmetric] split: option.splits)
qed

lemma byteBlockPolicy_valid: "isPolicyValid byteBlockPolicy = Inr True"
  by (simp add: isPolicyValid_def byteBlockPolicy_def isPowerOfTwo_def)

lemma log2i_numerals:
  "log2i 1 = 0" "log2i 2 = 1" "log2i 4 = 2" "log2i 64 = 6" "log2i 256 = 8" "log2i 2048 = 11"
  by (simp_all add: log2i_def log2i_loop.simps drop_bit_eq_div)

section \<open>The reference stamp and the prefetch flag\<close>

lemma getBlockId_loop_cong:
  "\<forall>i\<in>set xs. id_b (bs i) = id_b (bs' i) \<and> valid (bs i) = valid (bs' i) \<and> tag (bs i) = tag (bs' i)
   \<Longrightarrow> getBlockId_loop bs ident tg xs = getBlockId_loop bs' ident tg xs"
  by (induction xs) simp_all

lemma getBlockId_touch [simp]: "getBlockId (touch c b) addr = getBlockId c addr"
  unfolding getBlockId_def Let_def
  by (simp, rule getBlockId_loop_cong) simp

lemma getBlockId_store [simp]: "getBlockId (store c b off val) addr = getBlockId c addr"
  unfolding getBlockId_def Let_def
  by (simp, rule getBlockId_loop_cong) simp

lemma getBlockId_addCycles [simp]: "getBlockId (addCycles c n) addr = getBlockId c addr"
  by (simp add: getBlockId_def)

lemma getByte_touched:
  assumes "getByte lower c l m addr cyc pf = Inr (v, cyc', c', l', m')"
  shows "\<exists>b. getBlockId c' addr = Inr (Some b) \<and>
     lastReference (blocks c' b) = referenceCounter c + 1 \<and>
     referenceCounter c' = referenceCounter c + 1 \<and>
     v = data (blocks c' b) ! unat (getOffset (policy c') addr)"
proof -
  from getByte_lookup_cases [OF assms] show ?thesis
  proof
    assume "\<exists>b. getBlockId c addr = Inr (Some b)"
    then obtain b where b: "getBlockId c addr = Inr (Some b)" ..
    with assms have "c' = touch (countHit (enterRead c pf)) b"
      and "v = data (blocks c b) ! unat (getOffset (policy c) addr)"
      by (auto simp: getByte_hit)
    with b show ?thesis by simp
  next
    assume n: "getBlockId c addr = Inr None"
    let ?c3 = "if \<not> pf then countMiss (enterRead c pf) else enterRead c pf"
    from assms n obtain c4 b where
      ld: "loadBlockFromLowerLevel lower ?c3 l m addr cyc pf = Inr (cyc', c4, l', m')"
      and b: "getBlockId c4 addr = Inr (Some b)"
      and c': "c' = touch c4 b"
      and v: "v = data (blocks c4 b) ! unat (getOffset (policy c4) addr)"
      by (auto simp: getByte_miss split: sum.splits option.splits)
    from loadBlock_statistics(2) [OF ld] have "referenceCounter c4 = referenceCounter c + 1"
      by (simp split: if_splits)
    with b c' v show ?thesis by simp
  qed
qed

lemma fetchLower_loop_flag:
  "fetchLower_loop (\<lambda>l m a cy f. g l m a cy pf) base pf xs dat cyc l m
     = fetchLower_loop g base pf xs dat cyc l m"
  by (induction xs arbitrary: dat cyc l m) (simp_all split: sum.splits)

lemma fetchBlock_flag:
  "fetchBlock (Some (\<lambda>l m a cy f. fst lc l m a cy pf, snd lc)) p l m addr cyc pf
     = fetchBlock (Some lc) p l m addr cyc pf"
  by (simp add: fetchBlock_def fetchLower_loop_flag Let_def)

lemma writeBackVictim_flag:
  "writeBackVictim (Some (g, snd lc)) c b l m = writeBackVictim (Some lc) c b l m"
  by (simp add: writeBackVictim_def writeBlockToLowerLevel_def)

lemma loadBlock_flag:
  "loadBlockFromLowerLevel (Some (\<lambda>l m a cy f. fst lc l m a cy pf, snd lc)) c l m addr cyc pf
     = loadBlockFromLowerLevel (Some lc) c l m addr cyc pf"
  unfolding loadBlockFromLowerLevel_def fetchBlock_flag writeBackVictim_flag ..

lemma getByte_flag:
  "getByte (Some (\<lambda>l m a cy f. fst lc l m a cy pf, snd lc)) c l m addr cyc pf
     = getByte (Some lc) c l m addr cyc pf"
  unfolding getByte_def loadBlock_flag ..

section \<open>Writing a block to the lower level\<close>





section \<open>Well-formed caches\<close>

lemma wellFormed_cong:
  assumes "wellFormed c" "policy c' = policy c" "\<And>i. id_b (blocks c' i) = id_b (blocks c i)"
  shows "wellFormed c'"
  using assms by (simp add: wellFormed_def idsConsistent_def)

lemma wellFormed_simps [simp]:
  "wellFormed (enterRead c pf) = wellFormed c"
  "wellFormed (enterWrite c) = wellFormed c"
  "wellFormed (countHit c) = wellFormed c"
  "wellFormed (countMiss c) = wellFormed c"
  "wellFormed (addCycles c n) = wellFormed c"
  "wellFormed (touch c b) = wellFormed c"
  "wellFormed (store c b off val) = wellFormed c"
  by (auto simp: wellFormed_def idsConsistent_def)

lemma replaceIdOf_window:
  assumes "isPolicyValid (policy c) = Inr True"
  shows "windowBegin (policy c) addr \<le> replaceIdOf c addr"
    and "replaceIdOf c addr < windowEnd (policy c) addr"
proof -
  have "unat (getId (policy c) addr * associativity (policy c))
      < unat ((getId (policy c) addr + 1) * associativity (policy c))"
    using window_facts(4) [OF assms, of addr] by (simp add: windowBegin_def windowEnd_def)
  from getReplacementBlockId_spec [OF this, of "replaceIdOf c addr" "blocks c"]
  show "windowBegin (policy c) addr \<le> replaceIdOf c addr"
    and "replaceIdOf c addr < windowEnd (policy c) addr"
    by (simp_all add: replaceIdOf_def windowBegin_def windowEnd_def)
qed

lemma getBlockId_Some:
  assumes "wellFormed c" "getBlockId c addr = Inr (Some b)"
  shows "windowBegin (policy c) addr \<le> b" "b < windowEnd (policy c) addr"
    "valid (blocks c b)" "tag (blocks c b) = getTag (policy c) addr"
    "b < unat (blockNum (policy c))"
proof -
  from assms have f: "find (\<lambda>i. valid (blocks c i) \<and> tag (blocks c i) = getTag (policy c) addr)
          [windowBegin (policy c) addr ..< windowEnd (policy c) addr] = Some b"
    by (simp add: getBlockId_wf)
  then have "b \<in> set [windowBegin (policy c) addr ..< windowEnd (policy c) addr]"
    and p: "valid (blocks c b) \<and> tag (blocks c b) = getTag (policy c) addr"
    by (auto simp: find_Some_iff)
  then show w: "windowBegin (policy c) addr \<le> b" "b < windowEnd (policy c) addr" by simp_all
  from p show "valid (blocks c b)" "tag (blocks c b) = getTag (policy c) addr" by simp_all
  from assms(1) have "isPolicyValid (policy c) = Inr True" by (simp add: wellFormed_def)
  from window_div(2) [OF this w] show "b < unat (blockNum (policy c))" .
qed

lemma getBlockId_None:
  assumes "wellFormed c" "getBlockId c addr = Inr None"
    and "windowBegin (policy c) addr \<le> i" "i < windowEnd (policy c) addr" "valid (blocks c i)"
  shows "tag (blocks c i) \<noteq> getTag (policy c) addr"
proof -
  from assms(1,2) have "find (\<lambda>i. valid (blocks c i) \<and> tag (blocks c i) = getTag (policy c) addr)
          [windowBegin (policy c) addr ..< windowEnd (policy c) addr] = None"
    by (simp add: getBlockId_wf)
  with assms(3-5) show ?thesis by (auto simp: find_None_iff)
qed

lemma getBlockId_total:
  assumes "wellFormed c"
  shows "\<exists>r. getBlockId c addr = Inr r"
  by (simp add: getBlockId_wf [OF assms])

lemma getBlockId_present:
  assumes "wellFormed c"
    and "windowBegin (policy c) addr \<le> i" "i < windowEnd (policy c) addr"
    and "valid (blocks c i)" "tag (blocks c i) = getTag (policy c) addr"
  shows "\<exists>b. getBlockId c addr = Inr (Some b)"
proof -
  have "find (\<lambda>i. valid (blocks c i) \<and> tag (blocks c i) = getTag (policy c) addr)
          [windowBegin (policy c) addr ..< windowEnd (policy c) addr] \<noteq> None"
    using assms(2-5) by (auto simp: find_None_iff)
  then show ?thesis by (auto simp: getBlockId_wf [OF assms(1)])
qed

lemma newBlock_fields [simp]:
  "valid (newBlock p addr dat)" "\<not> modified (newBlock p addr dat)"
  "tag (newBlock p addr dat) = getTag p addr" "id_b (newBlock p addr dat) = getId p addr"
  "size_b (newBlock p addr dat) = blockSize p" "lastReference (newBlock p addr dat) = 0"
  "data (newBlock p addr dat) = dat"
  by (simp_all add: newBlock_def)

lemma install_wf:
  assumes "wellFormed c"
  shows "wellFormed (c\<lparr>blocks := (blocks c)(replaceIdOf c addr := newBlock (policy c) addr dat)\<rparr>)"
proof -
  from assms have v: "isPolicyValid (policy c) = Inr True" and ids: "idsConsistent c"
    by (simp_all add: wellFormed_def)
  note r = replaceIdOf_window [OF v, of addr]
  from window_div(1) [OF v r] have "of_nat (replaceIdOf c addr div unat (associativity (policy c)))
      = getId (policy c) addr" by simp
  with ids v show ?thesis
    by (simp add: wellFormed_def idsConsistent_def)
qed

lemma loadBlock_wf:
  assumes "wellFormed c"
    and "loadBlockFromLowerLevel lower c l m addr cyc pf = Inr (cyc', c', l', m')"
  shows "wellFormed c'" "policy c' = policy c" "\<exists>b. getBlockId c' addr = Inr (Some b)"
proof -
  from loadBlock_shape [OF assms(2)] obtain dat where
    c': "c' = (if evictsDirty c addr then addCycles c (missLatency (policy c)) else c)
            \<lparr>blocks := (blocks c)(replaceIdOf c addr := newBlock (policy c) addr dat)\<rparr>"
    by blast
  then show p: "policy c' = policy c" by simp
  from install_wf [OF assms(1), of addr dat] c' show wf: "wellFormed c'"
    by (simp add: wellFormed_def idsConsistent_def)
  from assms(1) have v: "isPolicyValid (policy c) = Inr True" by (simp add: wellFormed_def)
  note r = replaceIdOf_window [OF v, of addr]
  have "valid (blocks c' (replaceIdOf c addr))"
    "tag (blocks c' (replaceIdOf c addr)) = getTag (policy c') addr"
    using c' by simp_all
  with getBlockId_present [OF wf, of addr "replaceIdOf c addr"] r p
  show "\<exists>b. getBlockId c' addr = Inr (Some b)" by simp
qed

lemma getByte_wf:
  assumes "wellFormed c" "getByte lower c l m addr cyc pf = Inr (v, cyc', c', l', m')"
  shows "wellFormed c'" "policy c' = policy c"
proof -
  from getBlockId_total [OF assms(1), of addr] obtain r where r: "getBlockId c addr = Inr r" ..
  have "wellFormed c' \<and> policy c' = policy c"
  proof (cases r)
    case (Some b)
    with r assms show ?thesis by (auto simp: getByte_hit)
  next
    case None
    let ?c3 = "if \<not> pf then countMiss (enterRead c pf) else enterRead c pf"
    from assms(2) r None obtain c4 b where
      ld: "loadBlockFromLowerLevel lower ?c3 l m addr cyc pf = Inr (cyc', c4, l', m')"
      and c': "c' = touch c4 b"
      by (auto simp: getByte_miss split: sum.splits option.splits)
    have "wellFormed ?c3" using assms(1) by simp
    from loadBlock_wf(1,2) [OF this ld] c' show ?thesis by simp
  qed
  then show "wellFormed c'" "policy c' = policy c" by simp_all
qed

lemma setByte_wf:
  assumes "wellFormed c" "setByte lower c l m addr val cyc = Inr (cyc', c', l', m')"
  shows "wellFormed c'" "policy c' = policy c"
proof -
  from getBlockId_total [OF assms(1), of addr] obtain r where r: "getBlockId c addr = Inr r" ..
  have "wellFormed c' \<and> policy c' = policy c"
  proof (cases r)
    case (Some b)
    with r assms show ?thesis
      by (auto simp: setByte_hit Let_def split: if_splits sum.splits)
  next
    case None
    show ?thesis
    proof (cases "writeAllocate c")
      case True
      from assms(2) r None True obtain c4 b where
        ld: "loadBlockFromLowerLevel lower (countMiss (enterWrite c)) l m addr cyc False
               = Inr (cyc', c4, l', m')"
        and c': "c' = store c4 b (getOffset (policy c4) addr) val"
        by (auto simp: setByte_miss split: sum.splits option.splits)
      have "wellFormed (countMiss (enterWrite c))" using assms(1) by simp
      from loadBlock_wf(1,2) [OF this ld] c' show ?thesis by simp
    next
      case False
      with assms r None show ?thesis
        by (auto simp: setByte_miss split: option.splits sum.splits)
    qed
  qed
  then show "wellFormed c'" "policy c' = policy c" by simp_all
qed

lemma newCache_wf:
  assumes "newCache p wb wa = Inr c"
  shows "wellFormed c" "policy c = p"
proof -
  from assms isPolicyValid_cases [of p] have v: "isPolicyValid p = Inr True"
    by (auto simp: newCache_def)
  from newCache_valid [OF v, of wb wa] assms v
  show "wellFormed c" "policy c = p"
    by (auto simp: wellFormed_def idsConsistent_def initCache_def initBlock_def)
qed

section \<open>No operation on a well-formed cache fails\<close>

lemma lowerTotal_get:
  assumes "lowerTotal (Some lc) I" "I l"
  obtains v cyc' l' m' where "fst lc l m addr cyc pf = Inr (v, cyc', l', m')" "I l'"
  using assms unfolding lowerTotal_def by (simp only: option.case) blast

lemma lowerTotal_set:
  assumes "lowerTotal (Some lc) I" "I l"
  obtains cyc' l' m' where "snd lc l m addr val cyc = Inr (cyc', l', m')" "I l'"
  using assms unfolding lowerTotal_def by (simp only: option.case) blast

lemma fetchLower_loop_total:
  assumes "lowerTotal (Some lc) I"
  shows "I l \<Longrightarrow> \<exists>dat' cyc' l' m'.
    fetchLower_loop (fst lc) base pf xs dat cyc l m = Inr (dat', cyc', l', m') \<and> I l'"
proof (induction xs arbitrary: dat cyc l m)
  case Nil
  then show ?case by simp
next
  case (Cons i rest)
  from lowerTotal_get [OF assms Cons.prems, of m "of_nat i" cyc pf] obtain v cyc1 l1 m1
    where g: "fst lc l m (of_nat i) cyc pf = Inr (v, cyc1, l1, m1)" and i1: "I l1" by blast
  from Cons.IH [OF i1] g show ?case by simp
qed

lemma writeLower_loop_total:
  assumes "lowerTotal (Some lc) I"
  shows "I l \<Longrightarrow> \<exists>l' m'. writeLower_loop (snd lc) base dat xs l m = Inr (l', m') \<and> I l'"
proof (induction xs arbitrary: l m)
  case Nil
  then show ?case by simp
next
  case (Cons i rest)
  from lowerTotal_set [OF assms Cons.prems, of m "base + of_nat i" "dat ! i" None] obtain cyc1 l1 m1
    where g: "snd lc l m (base + of_nat i) (dat ! i) None = Inr (cyc1, l1, m1)" and i1: "I l1"
    by blast
  from Cons.IH [OF i1] g show ?case by simp
qed

lemma writeBlockToLowerLevel_total:
  assumes "lowerTotal lower I" "I l"
  shows "\<exists>l' m'. writeBlockToLowerLevel lower p b l m = Inr (l', m') \<and> I l'"
proof (cases lower)
  case None
  with assms(2) show ?thesis by (simp add: writeBlockToLowerLevel_def)
next
  case (Some lc)
  with assms writeLower_loop_total [of lc I l] show ?thesis
    by (simp add: writeBlockToLowerLevel_def)
qed

lemma fetchBlock_total:
  assumes "lowerTotal lower I" "I l"
  shows "\<exists>dat cyc' l' m'. fetchBlock lower p l m addr cyc pf = Inr (dat, cyc', l', m') \<and> I l'"
proof (cases lower)
  case None
  with assms(2) show ?thesis by (simp add: fetchBlock_def Let_def split: prod.splits)
next
  case (Some lc)
  with assms fetchLower_loop_total [of lc I l] show ?thesis
    by (simp add: fetchBlock_def Let_def)
qed

lemma writeBackVictim_total:
  assumes "lowerTotal lower I" "I l"
  shows "\<exists>c' l' m'. writeBackVictim lower c b l m = Inr (c', l', m') \<and> I l'"
proof (cases "writeBack c \<and> valid b \<and> modified b")
  case True
  from writeBlockToLowerLevel_total [OF assms, of "policy c" b m] obtain l' m'
    where "writeBlockToLowerLevel lower (policy c) b l m = Inr (l', m')" "I l'" by blast
  with True show ?thesis by (simp add: writeBackVictim_def)
next
  case False
  with assms(2) show ?thesis by (auto simp: writeBackVictim_def)
qed

lemma loadBlock_total:
  assumes "lowerTotal lower I" "I l"
  shows "\<exists>cyc' c' l' m'. loadBlockFromLowerLevel lower c l m addr cyc pf = Inr (cyc', c', l', m') \<and> I l'"
proof -
  from fetchBlock_total [OF assms, of "policy c" m addr cyc pf] obtain dat cyc1 l1 m1
    where f: "fetchBlock lower (policy c) l m addr cyc pf = Inr (dat, cyc1, l1, m1)" and i1: "I l1"
    by blast
  from writeBackVictim_total [OF assms(1) i1, of c "blocks c (replaceIdOf c addr)" m1]
  obtain c2 l2 m2 where
    "writeBackVictim lower c (blocks c (replaceIdOf c addr)) l1 m1 = Inr (c2, l2, m2)" "I l2"
    by blast
  with f show ?thesis
    by (simp add: loadBlockFromLowerLevel_def Let_def replaceIdOf_def)
qed

lemma getByte_total:
  assumes "lowerTotal lower I" "wellFormed c" "I l"
  shows "\<exists>v cyc' c' l' m'. getByte lower c l m addr cyc pf = Inr (v, cyc', c', l', m')
            \<and> wellFormed c' \<and> I l'"
proof -
  from getBlockId_total [OF assms(2), of addr] obtain r where r: "getBlockId c addr = Inr r" ..
  have "\<exists>v cyc' c' l' m'. getByte lower c l m addr cyc pf = Inr (v, cyc', c', l', m') \<and> I l'"
  proof (cases r)
    case (Some b)
    with r assms(3) show ?thesis by (simp add: getByte_hit)
  next
    case None
    let ?c3 = "if \<not> pf then countMiss (enterRead c pf) else enterRead c pf"
    from loadBlock_total [OF assms(1,3), of ?c3 m addr cyc pf] obtain cyc' c4 l' m'
      where ld: "loadBlockFromLowerLevel lower ?c3 l m addr cyc pf = Inr (cyc', c4, l', m')"
        and i': "I l'" by blast
    have "wellFormed ?c3" using assms(2) by simp
    from loadBlock_wf(3) [OF this ld] obtain b where "getBlockId c4 addr = Inr (Some b)" ..
    with r None ld i' show ?thesis by (simp add: getByte_miss)
  qed
  then obtain v cyc' c' l' m' where
    g: "getByte lower c l m addr cyc pf = Inr (v, cyc', c', l', m')" and i': "I l'" by blast
  from getByte_wf(1) [OF assms(2) g] g i' show ?thesis by blast
qed

lemma setByte_total:
  assumes "lowerTotal lower I" "wellFormed c" "I l"
  shows "\<exists>cyc' c' l' m'. setByte lower c l m addr val cyc = Inr (cyc', c', l', m')
            \<and> wellFormed c' \<and> I l'"
proof -
  from getBlockId_total [OF assms(2), of addr] obtain r where r: "getBlockId c addr = Inr r" ..
  have "\<exists>cyc' c' l' m'. setByte lower c l m addr val cyc = Inr (cyc', c', l', m') \<and> I l'"
  proof (cases r)
    case (Some b)
    let ?c3 = "store (countHit (enterWrite c)) b (getOffset (policy c) addr) val"
    from writeBlockToLowerLevel_total [OF assms(1,3), of "policy c" "blocks ?c3 b" m]
    obtain l' m' where "writeBlockToLowerLevel lower (policy c) (blocks ?c3 b) l m = Inr (l', m')"
      and "I l'" by blast
    with r Some assms(3) show ?thesis by (simp add: setByte_hit Let_def)
  next
    case None
    show ?thesis
    proof (cases "writeAllocate c")
      case True
      from loadBlock_total [OF assms(1,3), of "countMiss (enterWrite c)" m addr cyc False]
      obtain cyc' c4 l' m' where
        ld: "loadBlockFromLowerLevel lower (countMiss (enterWrite c)) l m addr cyc False
               = Inr (cyc', c4, l', m')" and i': "I l'" by blast
      have "wellFormed (countMiss (enterWrite c))" using assms(2) by simp
      from loadBlock_wf(3) [OF this ld] obtain b where "getBlockId c4 addr = Inr (Some b)" ..
      with r None True ld i' show ?thesis by (simp add: setByte_miss)
    next
      case False
      show ?thesis
      proof (cases lower)
        case None': None
        with r None False assms(3) show ?thesis by (simp add: setByte_miss)
      next
        case (Some lc)
        from lowerTotal_set [OF assms(1) [unfolded Some] assms(3), of m addr val None]
        obtain cy l' m' where "snd lc l m addr val None = Inr (cy, l', m')" "I l'" by blast
        with r None False Some show ?thesis by (simp add: setByte_miss)
      qed
    qed
  qed
  then obtain cyc' c' l' m' where
    g: "setByte lower c l m addr val cyc = Inr (cyc', c', l', m')" and i': "I l'" by blast
  from setByte_wf(1) [OF assms(2) g] g i' show ?thesis by blast
qed

lemma asLower_total:
  assumes "lowerTotal lower I"
  shows "lowerTotal (Some (asLower lower)) (\<lambda>(c, l). wellFormed c \<and> I l)"
proof -
  have "\<exists>v cycles' l' m'. fst (asLower lower) s m addr cyc pf = Inr (v, cycles', l', m')
          \<and> (case l' of (c, l) \<Rightarrow> wellFormed c \<and> I l)"
    if "case s of (c, l) \<Rightarrow> wellFormed c \<and> I l" for s m addr cyc pf
  proof -
    obtain c l where s: "s = (c, l)" by (cases s)
    with that have "wellFormed c" "I l" by simp_all
    from getByte_total [OF assms this, of m addr cyc pf] s show ?thesis
      by (auto simp: asLower_def)
  qed
  moreover have "\<exists>cycles' l' m'. snd (asLower lower) s m addr val cyc = Inr (cycles', l', m')
          \<and> (case l' of (c, l) \<Rightarrow> wellFormed c \<and> I l)"
    if "case s of (c, l) \<Rightarrow> wellFormed c \<and> I l" for s m addr val cyc
  proof -
    obtain c l where s: "s = (c, l)" by (cases s)
    with that have "wellFormed c" "I l" by simp_all
    from setByte_total [OF assms this, of m addr val cyc] s show ?thesis
      by (auto simp: asLower_def)
  qed
  ultimately show ?thesis unfolding lowerTotal_def by (simp only: option.case) blast
qed

lemma applyOps_total:
  assumes "lowerTotal lower I"
  shows "wellFormed c \<Longrightarrow> I l \<Longrightarrow>
    \<exists>c' l' m'. applyOps lower ops (c, l, m) = Inr (c', l', m') \<and> wellFormed c' \<and> I l'
       \<and> policy c' = policy c"
proof (induction ops arbitrary: c l m)
  case Nil
  then show ?case by simp
next
  case (Cons op ops)
  show ?case
  proof (cases op)
    case (Read addr cyc pf)
    from getByte_total [OF assms Cons.prems, of m addr cyc pf] obtain v cyc' c1 l1 m1 where
      g: "getByte lower c l m addr cyc pf = Inr (v, cyc', c1, l1, m1)" and w: "wellFormed c1" "I l1"
      by blast
    from Cons.IH [OF w, of m1] getByte_wf(2) [OF Cons.prems(1) g] g Read show ?thesis by auto
  next
    case (Write addr val cyc)
    from setByte_total [OF assms Cons.prems, of m addr val cyc] obtain cyc' c1 l1 m1 where
      g: "setByte lower c l m addr val cyc = Inr (cyc', c1, l1, m1)" and w: "wellFormed c1" "I l1"
      by blast
    from Cons.IH [OF w, of m1] setByte_wf(2) [OF Cons.prems(1) g] g Write show ?thesis by auto
  qed
qed

section \<open>Facts about the concrete scenarios\<close>

lemma oneBlockPolicy_valid: "isPolicyValid (oneBlockPolicy h ms) = Inr True"
  by (simp add: isPolicyValid_def oneBlockPolicy_def isPowerOfTwo_def)

lemma lowerTotal_None: "lowerTotal None I"
  by (simp add: lowerTotal_def)

section \<open>Evaluating concrete scenarios\<close>

lemmas eval_defs = getByte_def setByte_def getBlockId_def getTag_def getId_def getOffset_def shl32_def shr32_def
  loadBlockFromLowerLevel_def fetchBlock_def writeBackVictim_def writeBlockToLowerLevel_def
  getReplacementBlockId_def newBlock_def touch_def store_def tick_def countRead_def countWrite_def
  countHit_def countMiss_def addCycles_def Let_def initCache_def initBlock_def
  getByteNoCache_def setByteNoCache_def log2i_numerals inCache_def

lemma dirtyOneBlock_eq:
  "dirtyOneBlock =
    (\<lparr>statistics = \<lparr>numRead = 0, numWrite = 1, numHit = 0, numMiss = 1, totalCycles = 10\<rparr>,
      referenceCounter = 1, writeBack = True, writeAllocate = True,
      policy = oneBlockPolicy 1 10,
      blocks = (initCache (oneBlockPolicy 1 10))
        (0 := \<lparr>valid = True, modified = True, tag = 0, id_b = 0, size_b = 64,
               lastReference = 1, data = (replicate 64 0)[0 := 5]\<rparr>)\<rparr>, (), emptyMemory)"
  unfolding dirtyOneBlock_def
  by (simp add: newCache_valid [OF oneBlockPolicy_valid])
     (simp add: eval_defs oneBlockPolicy_def emptyMemory_def)


section \<open>The driver loop\<close>

lemma l1policy_valid: "isPolicyValid l1policy = Inr True"
  by (simp add: isPolicyValid_def l1policy_def isPowerOfTwo_def)
lemma l2policy_valid: "isPolicyValid l2policy = Inr True"
  by (simp add: isPolicyValid_def l2policy_def isPowerOfTwo_def)
lemma l3policy_valid: "isPolicyValid l3policy = Inr True"
  by (simp add: isPolicyValid_def l3policy_def isPowerOfTwo_def)

lemma log2i_more: "log2i 2048 = 11" "log2i 256 = 8"
  by (simp_all add: log2i_def log2i_loop.simps drop_bit_eq_div)

lemma asLower_fst:
  "fst (asLower lower) (c, l) m addr cyc pf =
     (case getByte lower c l m addr cyc pf of
        Inl e \<Rightarrow> Inl e
      | Inr (v, cyc', c', l', m') \<Rightarrow> Inr (v, cyc', (c', l'), m'))"
  by (simp add: asLower_def)

lemma asLower_snd:
  "snd (asLower lower) (c, l) m addr val cyc =
     (case setByte lower c l m addr val cyc of
        Inl e \<Rightarrow> Inl e
      | Inr (cyc', c', l', m') \<Rightarrow> Inr (cyc', (c', l'), m'))"
  by (simp add: asLower_def)

lemma policy_fields:
  "blockSize l1policy = 64" "blockNum l1policy = 256" "associativity l1policy = 1"
  "hitLatency l1policy = 1" "missLatency l1policy = 0"
  "blockSize l2policy = 64" "blockNum l2policy = 2048" "associativity l2policy = 8"
  "hitLatency l2policy = 8" "missLatency l2policy = 0"
  "blockSize l3policy = 64" "blockNum l3policy = 32768" "associativity l3policy = 16"
  "hitLatency l3policy = 20" "missLatency l3policy = 100"
  by (simp_all add: l1policy_def l2policy_def l3policy_def)

lemma buildHierarchy_eq:
  "buildHierarchy = Inr
    (\<lparr>statistics = \<lparr>numRead = 0, numWrite = 0, numHit = 0, numMiss = 0, totalCycles = 0\<rparr>,
      referenceCounter = 0, writeBack = True, writeAllocate = True,
      policy = l1policy, blocks = initCache l1policy\<rparr>,
     \<lparr>statistics = \<lparr>numRead = 0, numWrite = 0, numHit = 0, numMiss = 0, totalCycles = 0\<rparr>,
      referenceCounter = 0, writeBack = True, writeAllocate = True,
      policy = l2policy, blocks = initCache l2policy\<rparr>,
     \<lparr>statistics = \<lparr>numRead = 0, numWrite = 0, numHit = 0, numMiss = 0, totalCycles = 0\<rparr>,
      referenceCounter = 0, writeBack = True, writeAllocate = True,
      policy = l3policy, blocks = initCache l3policy\<rparr>, ())"
  by (simp add: buildHierarchy_def newCache_valid l1policy_valid l2policy_valid l3policy_valid)

lemmas driver_defs =
  l1lower_def l2lower_def l3lower_def asLower_fst asLower_snd demand_def memory_getByte_def
  memory_setByte_def step_def initPrefetcher_def isPageExist_def addPage_def emptyMemory_def
  policy_fields log2i_more upt_conv_Cons

lemma inCache_total:
  assumes "wellFormed c"
  shows "\<exists>r. inCache c addr = Inr r"
  using getBlockId_total [OF assms, of addr] by (auto simp: inCache_def)

lemma prefetch_loop_total:
  assumes "lowerTotal lower I"
  shows "wellFormed c \<Longrightarrow> I l \<Longrightarrow>
    \<exists>c' l' m'. prefetch_loop lower addr strd idx c l m = Inr (c', l', m') \<and> wellFormed c' \<and> I l'
       \<and> numRead (statistics c') = numRead (statistics c)
       \<and> numWrite (statistics c') = numWrite (statistics c)"
proof (induction idx arbitrary: c l m)
  case Nil
  then show ?case by simp
next
  case (Cons i rest)
  let ?pa = "(ucast ((ucast addr :: u64) + of_nat i * strd) :: u32)"
  from inCache_total [OF Cons.prems(1), of ?pa] obtain r where r: "inCache c ?pa = Inr r" ..
  show ?case
  proof (cases r)
    case True
    with r Cons.IH [OF Cons.prems, of m] show ?thesis by (simp add: Let_def)
  next
    case False
    let ?m1 = "if \<not> isPageExist m ?pa then addPage m ?pa else m"
    from getByte_total [OF assms Cons.prems, of ?m1 ?pa None True] obtain v cyc' c1 l1 m1 where
      g: "getByte lower c l ?m1 ?pa None True = Inr (v, cyc', c1, l1, m1)"
      and w: "wellFormed c1" "I l1" by blast
    from getByte_counts(1,2) [OF g] have n: "numRead (statistics c1) = numRead (statistics c)"
      "numWrite (statistics c1) = numWrite (statistics c)" by simp_all
    from Cons.IH [OF w, of m1] obtain c' l' m' where
      "prefetch_loop lower addr strd rest c1 l1 m1 = Inr (c', l', m')" "wellFormed c'" "I l'"
      "numRead (statistics c') = numRead (statistics c1)"
      "numWrite (statistics c') = numWrite (statistics c1)" by blast
    with r False g n show ?thesis by (simp add: Let_def)
  qed
qed

lemma demand_illegal:
  assumes "fst rec \<noteq> CHR ''r''" "fst rec \<noteq> CHR ''w''"
  shows "demand lower rec c l m = Inl (IllegalType (fst rec))"
  using assms by (cases rec) (simp add: demand_def Let_def)

lemma demand_total:
  assumes "lowerTotal lower I" "wellFormed c" "I l"
    and "fst rec = CHR ''r'' \<or> fst rec = CHR ''w''"
  shows "\<exists>c' l' m'. demand lower rec c l m = Inr (c', l', m') \<and> wellFormed c' \<and> I l'
       \<and> numRead (statistics c') = numRead (statistics c) + (if fst rec = CHR ''r'' then 1 else 0)
       \<and> numWrite (statistics c') = numWrite (statistics c) + (if fst rec = CHR ''r'' then 0 else 1)"
proof -
  obtain type addr where rec: "rec = (type, addr)" by (cases rec)
  let ?m1 = "if \<not> isPageExist m addr then addPage m addr else m"
  show ?thesis
  proof (cases "type = CHR ''r''")
    case True
    from getByte_total [OF assms(1-3), of ?m1 addr None False] obtain v cyc' c1 l1 m1 where
      g: "getByte lower c l ?m1 addr None False = Inr (v, cyc', c1, l1, m1)"
      and w: "wellFormed c1" "I l1" by blast
    from getByte_counts(1,2) [OF g] g w rec True show ?thesis
      by (simp add: demand_def memory_getByte_def Let_def)
  next
    case False
    with assms(4) rec have t: "type = CHR ''w''" by simp
    from setByte_total [OF assms(1-3), of ?m1 addr 0 None] obtain cyc' c1 l1 m1 where
      g: "setByte lower c l ?m1 addr 0 None = Inr (cyc', c1, l1, m1)"
      and w: "wellFormed c1" "I l1" by blast
    from setByte_counts(1,2) [OF g] g w rec t show ?thesis
      by (simp add: demand_def memory_setByte_def Let_def)
  qed
qed

lemma step_error:
  assumes "demand lower rec c l m = Inl e"
  shows "step lower rec (pf, c, l, m) = Inl e"
  using assms by (simp add: step_def)

lemma step_shape:
  assumes "demand lower rec c l m = Inr (c1, l1, m1)"
  shows "(\<exists>pf'. step lower rec (pf, c, l, m) = Inr (pf', c1, l1, m1)) \<or>
    (\<exists>pf' s idx. step lower rec (pf, c, l, m) =
       (case prefetch_loop lower (snd rec) s idx c1 l1 m1 of
          Inl e \<Rightarrow> Inl e
        | Inr (c2, l2, m2) \<Rightarrow> Inr (pf', c2, l2, m2)))"
proof -
  let ?ns = "(ucast (snd rec) :: u64) - ucast (last_addr pf)"
  let ?pf1 = "pf\<lparr>last_addr := snd rec\<rparr>"
  let ?pf2 = "if ?ns = stride ?pf1
              then ?pf1\<lparr>same_stride_count := same_stride_count ?pf1 + 1\<rparr>
              else ?pf1\<lparr>stride := ?ns, same_stride_count := 1\<rparr>"
  let ?pf3 = "?pf2\<lparr>is_prefetch := True, diff_stride_count := 0\<rparr>"
  let ?pf4 = "?pf1\<lparr>diff_stride_count := 0\<rparr>"
  let ?pf5 = "?pf1\<lparr>diff_stride_count := diff_stride_count ?pf1 + 1\<rparr>"
  consider (a) "\<not> is_prefetch ?pf1" "same_stride_count ?pf2 \<ge> 3"
    | (b) "\<not> is_prefetch ?pf1" "\<not> same_stride_count ?pf2 \<ge> 3"
    | (c) "is_prefetch ?pf1" "?ns = stride ?pf1"
    | (d) "is_prefetch ?pf1" "?ns \<noteq> stride ?pf1" by blast
  then show ?thesis
  proof cases
    case a
    then have "step lower rec (pf, c, l, m) =
       (case prefetch_loop lower (snd rec) (stride ?pf3) [1, 2, 3] c1 l1 m1 of
          Inl e \<Rightarrow> Inl e
        | Inr (c2, l2, m2) \<Rightarrow> Inr (?pf3, c2, l2, m2))"
      unfolding step_def using assms by (simp only: Let_def prod.case sum.case if_True if_False simp_thms)
    then show ?thesis by blast
  next
    case b
    then have "step lower rec (pf, c, l, m) = Inr (?pf2, c1, l1, m1)"
      unfolding step_def using assms by (simp only: Let_def prod.case sum.case if_True if_False simp_thms)
    then show ?thesis by blast
  next
    case c
    then have "step lower rec (pf, c, l, m) =
       (case prefetch_loop lower (snd rec) (stride ?pf4) [1, 2] c1 l1 m1 of
          Inl e \<Rightarrow> Inl e
        | Inr (c2, l2, m2) \<Rightarrow> Inr (?pf4, c2, l2, m2))"
      unfolding step_def using assms
      by (simp only: Let_def prod.case sum.case if_True if_False simp_thms)
    then show ?thesis by blast
  next
    case d
    then have "step lower rec (pf, c, l, m) =
       (if diff_stride_count ?pf5 > 3
        then Inr (?pf5\<lparr>is_prefetch := False, stride := ?ns, same_stride_count := 1\<rparr>, c1, l1, m1)
        else Inr (?pf5, c1, l1, m1))"
      unfolding step_def using assms
      by (simp only: Let_def prod.case sum.case if_True if_False simp_thms)
    then show ?thesis by (cases "diff_stride_count ?pf5 > 3") auto
  qed
qed

lemma step_total:
  assumes "lowerTotal lower I"
    and "demand lower rec c l m = Inr (c1, l1, m1)" "wellFormed c1" "I l1"
  shows "\<exists>pf' c' l' m'. step lower rec (pf, c, l, m) = Inr (pf', c', l', m') \<and> wellFormed c' \<and> I l'
       \<and> numRead (statistics c') = numRead (statistics c1)
       \<and> numWrite (statistics c') = numWrite (statistics c1)"
proof -
  from step_shape [OF assms(2), of pf] show ?thesis
  proof
    assume "\<exists>pf'. step lower rec (pf, c, l, m) = Inr (pf', c1, l1, m1)"
    with assms(3,4) show ?thesis by auto
  next
    assume "\<exists>pf' s idx. step lower rec (pf, c, l, m) =
       (case prefetch_loop lower (snd rec) s idx c1 l1 m1 of
          Inl e \<Rightarrow> Inl e
        | Inr (c2, l2, m2) \<Rightarrow> Inr (pf', c2, l2, m2))"
    then obtain pf' s idx where st: "step lower rec (pf, c, l, m) =
       (case prefetch_loop lower (snd rec) s idx c1 l1 m1 of
          Inl e \<Rightarrow> Inl e
        | Inr (c2, l2, m2) \<Rightarrow> Inr (pf', c2, l2, m2))" by blast
    from prefetch_loop_total [OF assms(1,3,4), of "snd rec" s idx m1] obtain c' l' m' where
      "prefetch_loop lower (snd rec) s idx c1 l1 m1 = Inr (c', l', m')" "wellFormed c'" "I l'"
      "numRead (statistics c') = numRead (statistics c1)"
      "numWrite (statistics c') = numWrite (statistics c1)" by blast
    with st show ?thesis by simp
  qed
qed


lemma run_sim:
  assumes "lowerTotal lower I"
  shows "wellFormed c \<Longrightarrow> I l \<Longrightarrow> wellFormed c' \<Longrightarrow> I l' \<Longrightarrow>
    numRead (statistics c) = numRead (statistics c') \<Longrightarrow>
    numWrite (statistics c) = numWrite (statistics c') \<Longrightarrow>
    (\<exists>e. run lower trace (pf, c, l, m) = Inl e \<and> run_noPrefetch lower trace (c', l', m') = Inl e) \<or>
    (\<exists>pf2 c2 l2 m2 c2' l2' m2'.
       run lower trace (pf, c, l, m) = Inr (pf2, c2, l2, m2) \<and>
       run_noPrefetch lower trace (c', l', m') = Inr (c2', l2', m2') \<and>
       numRead (statistics c2) = numRead (statistics c2') \<and>
       numWrite (statistics c2) = numWrite (statistics c2'))"
proof (induction trace arbitrary: pf c l m c' l' m')
  case Nil
  then show ?case by simp
next
  case (Cons rec trace)
  show ?case
  proof (cases "fst rec = CHR ''r'' \<or> fst rec = CHR ''w''")
    case False
    then have "demand lower rec c l m = Inl (IllegalType (fst rec))"
      and "demand lower rec c' l' m' = Inl (IllegalType (fst rec))"
      by (simp_all add: demand_illegal)
    then show ?thesis by (simp add: step_error)
  next
    case True
    from demand_total [OF assms Cons.prems(1,2) True, of m] obtain c1 l1 m1 where
      d: "demand lower rec c l m = Inr (c1, l1, m1)" "wellFormed c1" "I l1"
      and n: "numRead (statistics c1) = numRead (statistics c) + (if fst rec = CHR ''r'' then 1 else 0)"
        "numWrite (statistics c1) = numWrite (statistics c) + (if fst rec = CHR ''r'' then 0 else 1)"
      by blast
    from demand_total [OF assms Cons.prems(3,4) True, of m'] obtain c1' l1' m1' where
      d': "demand lower rec c' l' m' = Inr (c1', l1', m1')" "wellFormed c1'" "I l1'"
      and n': "numRead (statistics c1') = numRead (statistics c') + (if fst rec = CHR ''r'' then 1 else 0)"
        "numWrite (statistics c1') = numWrite (statistics c') + (if fst rec = CHR ''r'' then 0 else 1)"
      by blast
    from step_total [OF assms d, of pf] obtain pfs cs ls ms where
      s: "step lower rec (pf, c, l, m) = Inr (pfs, cs, ls, ms)" "wellFormed cs" "I ls"
      and ns: "numRead (statistics cs) = numRead (statistics c1)"
        "numWrite (statistics cs) = numWrite (statistics c1)" by blast
    from n n' ns Cons.prems(5,6) have eq: "numRead (statistics cs) = numRead (statistics c1')"
      "numWrite (statistics cs) = numWrite (statistics c1')" by simp_all
    from Cons.IH [OF s(2,3) d'(2,3) eq, of pfs ms m1'] s(1) d'(1) show ?thesis by simp
  qed
qed

lemma initCache_wf:
  assumes "isPolicyValid p = Inr True"
  shows "wellFormed \<lparr>statistics = \<lparr>numRead = 0, numWrite = 0, numHit = 0, numMiss = 0, totalCycles = 0\<rparr>,
      referenceCounter = 0, writeBack = wb, writeAllocate = wa, policy = p, blocks = initCache p\<rparr>"
  using newCache_wf(1) [of p wb wa] newCache_valid [OF assms, of wb wa] by simp

lemma l1lower_total: "lowerTotal l1lower (\<lambda>(c2, c3, u). wellFormed c2 \<and> wellFormed c3)"
proof -
  have 3: "lowerTotal l3lower (\<lambda>u. True)" unfolding l3lower_def by (rule lowerTotal_None)
  from asLower_total [OF 3] have 2: "lowerTotal l2lower (\<lambda>(c, l). wellFormed c \<and> True)"
    by (simp add: l2lower_def)
  from asLower_total [OF 2] have "lowerTotal l1lower
      (\<lambda>(c, l). wellFormed c \<and> (case l of (c, l) \<Rightarrow> wellFormed c \<and> True))"
    by (simp add: l1lower_def)
  moreover have "(\<lambda>(c, l). wellFormed c \<and> (case l of (c, l :: unit) \<Rightarrow> wellFormed c \<and> True))
      = (\<lambda>(c2, c3, u). wellFormed c2 \<and> wellFormed c3)"
    by (auto simp: fun_eq_iff)
  ultimately show ?thesis by simp
qed

lemma strideTrace_with_prefetch:
  "\<not> isl (main_loop emptyMemory strideTrace) \<and>
   numMiss (statistics (fst (snd (projr (main_loop emptyMemory strideTrace))))) = 3"
  by (simp add: main_loop_def buildHierarchy_eq strideTrace_def driver_defs eval_defs)

lemma strideTrace_without_prefetch:
  "\<not> isl (main_loop_noPrefetch emptyMemory strideTrace) \<and>
   numMiss (statistics (fst (projr (main_loop_noPrefetch emptyMemory strideTrace)))) = 4"
  by (simp add: main_loop_noPrefetch_def buildHierarchy_eq strideTrace_def driver_defs eval_defs)

section \<open>The set index of every slot\<close>

lemma word_div_of_nat:
  assumes "i < 2 ^ 32"
  shows "(of_nat (i div unat a) :: u32) = of_nat i div a"
proof -
  have "unat (of_nat i :: u32) = i" using assms by (simp add: unat_of_nat)
  then have "unat (of_nat i div a :: u32) = i div unat a" by (simp add: unat_div)
  moreover have "i div unat a < 2 ^ 32" using assms div_le_dividend [of i "unat a"] by linarith
  then have "unat (of_nat (i div unat a) :: u32) = i div unat a" by (simp add: unat_of_nat)
  ultimately show ?thesis by (simp add: word_unat_eq_iff)
qed

lemma idsConsistent_word:
  "idsConsistent c \<longleftrightarrow>
     (\<forall>i < unat (blockNum (policy c)). id_b (blocks c i) = of_nat i div associativity (policy c))"
proof -
  have "(of_nat (i div unat (associativity (policy c))) :: u32) = of_nat i div associativity (policy c)"
    if "i < unat (blockNum (policy c))" for i
  proof -
    have "unat (blockNum (policy c)) < 2 ^ 32" using unsigned_less [of "blockNum (policy c)"] by simp
    with that have "i < 2 ^ 32" by simp
    then show ?thesis by (rule word_div_of_nat)
  qed
  then show ?thesis by (auto simp: idsConsistent_def)
qed

text \<open>Claim C6: in a cache built by the constructor (so against a valid policy) every
  slot \<open>i\<close> holds \<open>id = i / associativity\<close>, and this still holds after any sequence
  of \<^verbatim>\<open>getByte\<close> and \<^verbatim>\<open>setByte\<close> calls; the sequence runs to its end, and afterwards no
  lookup reaches the inconsistent-ID exit. The lower neighbour is any one that does not
  fail itself, in particular none at all or a well-formed lower cache.\<close>

theorem ids_stay_consistent:
  assumes "newCache p wb wa = Inr c" and "lowerTotal lower I" and "I l"
  shows "(\<forall>i < unat (blockNum p). id_b (blocks c i) = of_nat i div associativity p) \<and>
    (\<exists>c' l' m'. applyOps lower ops (c, l, m) = Inr (c', l', m') \<and>
       (\<forall>i < unat (blockNum p). id_b (blocks c' i) = of_nat i div associativity p) \<and>
       (\<forall>addr. \<exists>r. getBlockId c' addr = Inr r))"
proof -
  note w = newCache_wf [OF assms(1)]
  from applyOps_total [OF assms(2) w(1) assms(3), of ops m] obtain c' l' m' where
    a: "applyOps lower ops (c, l, m) = Inr (c', l', m')" and w': "wellFormed c'"
    and p': "policy c' = policy c" by blast
  from w have 1: "\<forall>i < unat (blockNum p). id_b (blocks c i) = of_nat i div associativity p"
    using idsConsistent_word [of c] by (simp add: wellFormed_def)
  from w' p' w(2) have 2: "\<forall>i < unat (blockNum p). id_b (blocks c' i) = of_nat i div associativity p"
    using idsConsistent_word [of c'] by (simp add: wellFormed_def)
  from getBlockId_total [OF w'] have 3: "\<forall>addr. \<exists>r. getBlockId c' addr = Inr r" by blast
  from a 1 2 3 show ?thesis by blast
qed

text \<open>A one-block cache without a lower level, a write and a read.\<close>

theorem ids_stay_consistent_witness:
  "\<exists>c. newCache (oneBlockPolicy 1 10) True True = Inr c \<and>
     lowerTotal (None :: unit LowerCache option) (\<lambda>u. True) \<and>
     (\<forall>i < unat (blockNum (oneBlockPolicy 1 10)).
         id_b (blocks c i) = of_nat i div associativity (oneBlockPolicy 1 10)) \<and>
     (\<exists>c' l' m'. applyOps None [Write 0 5 None, Read 64 None False] (c, (), emptyMemory)
          = Inr (c', l', m') \<and>
       (\<forall>i < unat (blockNum (oneBlockPolicy 1 10)).
          id_b (blocks c' i) = of_nat i div associativity (oneBlockPolicy 1 10)) \<and>
       (\<forall>addr. \<exists>r. getBlockId c' addr = Inr r))"
proof -
  obtain c where c: "newCache (oneBlockPolicy 1 10) True True = Inr c"
    using newCache_valid [OF oneBlockPolicy_valid] by blast
  have t: "lowerTotal (None :: unit LowerCache option) (\<lambda>u. True)" by (rule lowerTotal_None)
  from ids_stay_consistent [OF c t TrueI,
      where l = "()" and ops = "[Write 0 5 None, Read 64 None False]" and m = emptyMemory] c t
  show ?thesis by blast
qed

section \<open>Hits and misses of demand accesses\<close>

text \<open>Claim C10: a demand access (a \<^verbatim>\<open>getByte\<close> that is not a prefetch, or a
  \<^verbatim>\<open>setByte\<close>) adds one to exactly one of \<open>numHit\<close> and \<open>numMiss\<close>; on a miss \<open>numHit\<close>
  stays, so the lookup after the fill is not counted. Hence after any sequence of
  demand accesses to a constructed cache \<open>numHit + numMiss = numRead + numWrite\<close>, in
  the 32-bit arithmetic of the counters. The statement is about one level with any
  lower neighbour, so it holds at every level.\<close>

theorem demand_access_counts_once:
  "(getByte lower c l m addr cyc False = Inr (v, cyc', c', l', m') \<longrightarrow>
      (numHit (statistics c') = numHit (statistics c) + 1 \<and>
       numMiss (statistics c') = numMiss (statistics c) \<or>
       numHit (statistics c') = numHit (statistics c) \<and>
       numMiss (statistics c') = numMiss (statistics c) + 1) \<and>
      (getBlockId c addr = Inr None \<longrightarrow> numHit (statistics c') = numHit (statistics c))) \<and>
   (setByte lower c l m addr val cyc = Inr (cyc2, c2, l2, m2) \<longrightarrow>
      (numHit (statistics c2) = numHit (statistics c) + 1 \<and>
       numMiss (statistics c2) = numMiss (statistics c) \<or>
       numHit (statistics c2) = numHit (statistics c) \<and>
       numMiss (statistics c2) = numMiss (statistics c) + 1) \<and>
      (getBlockId c addr = Inr None \<longrightarrow> numHit (statistics c2) = numHit (statistics c))) \<and>
   (newCache p wb wa = Inr c0 \<and> lowerTotal lower I \<and> I l0 \<and> (\<forall>op\<in>set ops. isDemand op) \<longrightarrow>
      (\<exists>c1 l1 m1. applyOps lower ops (c0, l0, m0) = Inr (c1, l1, m1) \<and>
          numHit (statistics c1) + numMiss (statistics c1)
            = numRead (statistics c1) + numWrite (statistics c1)))"
proof (intro conjI impI)
  assume g: "getByte lower c l m addr cyc False = Inr (v, cyc', c', l', m')"
  from getByte_demand_once [OF g]
  show "numHit (statistics c') = numHit (statistics c) + 1 \<and>
       numMiss (statistics c') = numMiss (statistics c) \<or>
       numHit (statistics c') = numHit (statistics c) \<and>
       numMiss (statistics c') = numMiss (statistics c) + 1" by simp
  assume "getBlockId c addr = Inr None"
  from getByte_counts(4) [OF g this] show "numHit (statistics c') = numHit (statistics c)" by simp
next
  assume g: "setByte lower c l m addr val cyc = Inr (cyc2, c2, l2, m2)"
  from setByte_demand_once [OF g]
  show "numHit (statistics c2) = numHit (statistics c) + 1 \<and>
       numMiss (statistics c2) = numMiss (statistics c) \<or>
       numHit (statistics c2) = numHit (statistics c) \<and>
       numMiss (statistics c2) = numMiss (statistics c) + 1" by simp
  assume "getBlockId c addr = Inr None"
  from setByte_counts(4) [OF g this] show "numHit (statistics c2) = numHit (statistics c)" by simp
next
  assume a: "newCache p wb wa = Inr c0 \<and> lowerTotal lower I \<and> I l0 \<and> (\<forall>op\<in>set ops. isDemand op)"
  then have n: "newCache p wb wa = Inr c0" and t: "lowerTotal lower I" and i: "I l0"
    and d: "\<forall>op\<in>set ops. isDemand op" by simp_all
  note w = newCache_wf [OF n]
  from n isPolicyValid_cases [of p] have "isPolicyValid p = Inr True" by (auto simp: newCache_def)
  from newCache_valid [OF this, of wb wa] n have b0: "balanced c0" by (auto simp: balanced_def)
  from applyOps_total [OF t w(1) i, of ops m0] obtain c1 l1 m1 where
    r: "applyOps lower ops (c0, l0, m0) = Inr (c1, l1, m1)" by blast
  from applyOps_balanced [OF r d b0] r
  show "\<exists>c1 l1 m1. applyOps lower ops (c0, l0, m0) = Inr (c1, l1, m1) \<and>
          numHit (statistics c1) + numMiss (statistics c1)
            = numRead (statistics c1) + numWrite (statistics c1)"
    by (auto simp: balanced_def)
qed

text \<open>A one-block cache without a lower level: a read miss, a write miss, and a
  sequence of two demand accesses.\<close>

theorem demand_access_counts_once_witness:
  "\<exists>c v cyc' c' l' m' cyc2 c2 l2 m2.
     newCache (oneBlockPolicy 1 10) True True = Inr c \<and>
     lowerTotal (None :: unit LowerCache option) (\<lambda>u. True) \<and>
     (\<forall>op\<in>set [Read 0 None False, Write 64 1 None]. isDemand op) \<and>
     getBlockId c 0 = Inr None \<and>
     getByte None c () emptyMemory 0 None False = Inr (v, cyc', c', l', m') \<and>
     setByte None c () emptyMemory 0 5 None = Inr (cyc2, c2, l2, m2) \<and>
     numHit (statistics c') = numHit (statistics c) \<and>
     numHit (statistics c2) = numHit (statistics c) \<and>
     (\<exists>c1 l1 m1. applyOps None [Read 0 None False, Write 64 1 None] (c, (), emptyMemory)
          = Inr (c1, l1, m1) \<and>
        numHit (statistics c1) + numMiss (statistics c1)
          = numRead (statistics c1) + numWrite (statistics c1))"
proof -
  obtain c where c: "newCache (oneBlockPolicy 1 10) True True = Inr c"
    using newCache_valid [OF oneBlockPolicy_valid] by blast
  note w = newCache_wf [OF c]
  have t: "lowerTotal (None :: unit LowerCache option) (\<lambda>u. True)" by (rule lowerTotal_None)
  have d: "\<forall>op\<in>set [Read 0 None False, Write 64 1 None]. isDemand op" by simp
  have n: "getBlockId c 0 = Inr None"
    using c by (auto simp: newCache_def oneBlockPolicy_valid getBlockId_wf [OF w(1)] find_None_iff
        initCache_def initBlock_def)
  from getByte_total [OF t w(1) TrueI, of "()" emptyMemory 0 None False] obtain v cyc' c' l' m'
    where g: "getByte None c () emptyMemory 0 None False = Inr (v, cyc', c', l', m')" by blast
  from setByte_total [OF t w(1) TrueI, of "()" emptyMemory 0 5 None] obtain cyc2 c2 l2 m2
    where s: "setByte None c () emptyMemory 0 5 None = Inr (cyc2, c2, l2, m2)" by blast
  from demand_access_counts_once [of None c "()" emptyMemory 0 None v cyc' c' l' m' 5 cyc2 c2 l2 m2
      "oneBlockPolicy 1 10" True True c "\<lambda>u. True" "()" "[Read 0 None False, Write 64 1 None]" emptyMemory]
    c t d n g s
  show ?thesis by (simp del: applyOps.simps)
qed

section \<open>What a fill reads\<close>

text \<open>A fill whose block base address is not \<^verbatim>\<open>0xFFFFFFFF\<close> reads exactly one byte, the
  one at the base address: from memory when there is no lower level (100 cycles are added
  to the caller's cycles variable once), otherwise by one \<^verbatim>\<open>getByte\<close> call on the lower
  cache. The lower level is otherwise touched only by the write-back of the victim. The
  installed block holds that byte followed by \<open>blockSize - 1\<close> zero bytes.\<close>

theorem fill_reads_one_byte:
  assumes "blockBase (policy c) addr \<noteq> 4294967295"
    and "isPolicyValid (policy c) = Inr True"
    and "loadBlockFromLowerLevel lower c l m addr cyc pf = Inr (cyc', c', l', m')"
  shows "\<exists>v l1 m1 c2.
     (case lower of
        None \<Rightarrow> v = getByteNoCache m (blockBase (policy c) addr) \<and>
                cyc' = map_option (\<lambda>cy. cy + 100) cyc \<and> l1 = l \<and> m1 = m
      | Some lc \<Rightarrow> fst lc l m (blockBase (policy c) addr) cyc pf = Inr (v, cyc', l1, m1)) \<and>
     writeBackVictim lower c (blocks c (replaceIdOf c addr)) l1 m1 = Inr (c2, l', m') \<and>
     blocks c' (replaceIdOf c addr) =
       newBlock (policy c) addr (v # replicate (unat (blockSize (policy c)) - 1) 0)"
proof -
  have nz: "blockBase (policy c) addr + 1 \<noteq> 0"
  proof
    assume "blockBase (policy c) addr + 1 = 0"
    then have "blockBase (policy c) addr = - 1" by (simp add: eq_neg_iff_add_eq_0)
    with assms(1) show False by simp
  qed
  note pos = valid_policy_facts(4) [OF assms(2)]
  from assms(3) obtain dat cyc1 l1 m1 where
    f: "fetchBlock lower (policy c) l m addr cyc pf = Inr (dat, cyc1, l1, m1)"
    by (cases "fetchBlock lower (policy c) l m addr cyc pf")
       (auto simp: loadBlockFromLowerLevel_def)
  with assms(3) obtain c2 where
    w: "writeBackVictim lower c (blocks c (replaceIdOf c addr)) l1 m1 = Inr (c2, l', m')"
    and c': "c' = c2\<lparr>blocks := (blocks c2)(replaceIdOf c addr := newBlock (policy c) addr dat)\<rparr>"
    and cy: "cyc' = cyc1"
    by (cases "writeBackVictim lower c (blocks c (replaceIdOf c addr)) l1 m1")
       (auto simp: loadBlockFromLowerLevel_def Let_def replaceIdOf_def)
  from c' have d: "blocks c' (replaceIdOf c addr) = newBlock (policy c) addr dat" by simp
  show ?thesis
  proof (cases lower)
    case None
    with f have "dat = getByteNoCache m (blockBase (policy c) addr)
          # replicate (unat (blockSize (policy c)) - 1) 0"
      and "cyc1 = map_option (\<lambda>cy. cy + 100) cyc" and "l1 = l" and "m1 = m"
      by (auto simp: fetchBlock_single [OF nz pos])
    with None w d cy show ?thesis by auto
  next
    case (Some lc)
    with f obtain v where "fst lc l m (blockBase (policy c) addr) cyc pf = Inr (v, cyc1, l1, m1)"
      and "dat = v # replicate (unat (blockSize (policy c)) - 1) 0"
      by (auto simp: fetchBlock_single [OF nz pos] split: sum.splits)
    with Some w d cy show ?thesis by auto
  qed
qed

text \<open>A fill at address 70 of the one-block cache without a lower level.\<close>

theorem fill_reads_one_byte_witness:
  "\<exists>c cyc' c' l' m' v l1 m1 c2.
     newCache (oneBlockPolicy 1 10) True True = Inr c \<and>
     blockBase (policy c) 70 \<noteq> 4294967295 \<and>
     isPolicyValid (policy c) = Inr True \<and>
     loadBlockFromLowerLevel None c () emptyMemory 70 (Some 0) False = Inr (cyc', c', l', m') \<and>
     v = getByteNoCache emptyMemory (blockBase (policy c) 70) \<and>
     cyc' = map_option (\<lambda>cy. cy + 100) (Some 0) \<and> l1 = () \<and> m1 = emptyMemory \<and>
     writeBackVictim None c (blocks c (replaceIdOf c 70)) l1 m1 = Inr (c2, l', m') \<and>
     blocks c' (replaceIdOf c 70) =
       newBlock (policy c) 70 (v # replicate (unat (blockSize (policy c)) - 1) 0)"
proof -
  obtain c where c: "newCache (oneBlockPolicy 1 10) True True = Inr c"
    using newCache_valid [OF oneBlockPolicy_valid] by blast
  note w = newCache_wf [OF c]
  have b: "blockBase (policy c) 70 \<noteq> 4294967295"
    by (simp add: w(2) blockBase_def oneBlockPolicy_def)
  have v: "isPolicyValid (policy c) = Inr True"
    by (simp add: w(2) oneBlockPolicy_valid)
  from loadBlock_total [OF lowerTotal_None, of "\<lambda>u. True" "()" c emptyMemory 70 "Some 0" False]
  obtain cyc' c' l' m' where
    ld: "loadBlockFromLowerLevel None c () emptyMemory 70 (Some 0) False = Inr (cyc', c', l', m')"
    by auto
  from fill_reads_one_byte [OF b v ld] c b v ld show ?thesis
    by (simp only: option.case) blast
qed

text \<open>Claim C1 fails on the code for one-byte blocks at the last address: the bound
  \<^verbatim>\<open>blockAddrBegin + 1\<close> of the fetch loop wraps around to 0, so the loop body never runs.
  The fill reads no byte (the cycles variable stays 0) and the installed block holds 0,
  although the memory holds 7 there; \<^verbatim>\<open>getByte\<close> at that address returns 0.\<close>

theorem fill_at_last_address_reads_nothing:
  "isPolicyValid byteBlockPolicy = Inr True \<and>
   getByteNoCache lastByteMemory 4294967295 = 7 \<and>
   \<not> isl (loadBlockFromLowerLevel None (projr (newCache byteBlockPolicy True True)) ()
            lastByteMemory 4294967295 (Some 0) False) \<and>
   fst (projr (loadBlockFromLowerLevel None (projr (newCache byteBlockPolicy True True)) ()
            lastByteMemory 4294967295 (Some 0) False)) = Some 0 \<and>
   data (blocks (fst (snd (projr (loadBlockFromLowerLevel None
            (projr (newCache byteBlockPolicy True True)) () lastByteMemory 4294967295 (Some 0) False)))) 3)
     = [0] \<and>
   map_sum id fst (getByte None (projr (newCache byteBlockPolicy True True)) ()
            lastByteMemory 4294967295 (Some 0) False) = Inr 0"
proof -
  have b: "blockBase byteBlockPolicy 4294967295 + 1 = 0"
    by (simp add: blockBase_def byteBlockPolicy_def)
  have n: "newCache byteBlockPolicy True True =
     Inr \<lparr>statistics = \<lparr>numRead = 0, numWrite = 0, numHit = 0, numMiss = 0, totalCycles = 0\<rparr>,
          referenceCounter = 0, writeBack = True, writeAllocate = True,
          policy = byteBlockPolicy, blocks = initCache byteBlockPolicy\<rparr>"
    by (rule newCache_valid [OF byteBlockPolicy_valid])
  have g: "getId byteBlockPolicy 4294967295 = 3"
    by (simp add: getId_def shl32_def shr32_def byteBlockPolicy_def log2i_numerals)
  have r: "getReplacementBlockId (initCache byteBlockPolicy) 3 4 = 3"
    by (simp add: getReplacementBlockId_def initCache_def initBlock_def)
  have t: "getTag byteBlockPolicy 4294967295 = 1073741823"
    by (simp add: getTag_def shl32_def shr32_def byteBlockPolicy_def log2i_numerals)
  have o: "getOffset byteBlockPolicy 4294967295 = 0"
    by (simp add: getOffset_def shl32_def byteBlockPolicy_def log2i_numerals)
  have ld: "loadBlockFromLowerLevel None
        \<lparr>statistics = s, referenceCounter = rc, writeBack = True, writeAllocate = True,
           policy = byteBlockPolicy, blocks = initCache byteBlockPolicy\<rparr> ()
        lastByteMemory 4294967295 (Some 0) False =
      Inr (Some 0, \<lparr>statistics = s, referenceCounter = rc, writeBack = True, writeAllocate = True,
           policy = byteBlockPolicy, blocks = (initCache byteBlockPolicy)
             (3 := newBlock byteBlockPolicy 4294967295 [0])\<rparr>, (), lastByteMemory)" for s rc
    by (simp add: loadBlockFromLowerLevel_def fetchBlock_wrapped [OF b] g r writeBackVictim_def
        Let_def)
       (simp add: byteBlockPolicy_def initCache_def initBlock_def getReplacementBlockId_def)
  have m: "getByteNoCache lastByteMemory 4294967295 = 7"
    by (simp add: lastByteMemory_def getByteNoCache_def setByteNoCache_def)
  have miss: "getBlockId
        \<lparr>statistics = s, referenceCounter = rc, writeBack = True, writeAllocate = True,
           policy = byteBlockPolicy, blocks = initCache byteBlockPolicy\<rparr> 4294967295 = Inr None"
    for s rc
    by (simp add: getBlockId_def g t) (simp add: byteBlockPolicy_def initCache_def initBlock_def)
  have hit: "getBlockId
        \<lparr>statistics = s, referenceCounter = rc, writeBack = True, writeAllocate = True,
           policy = byteBlockPolicy, blocks = (initCache byteBlockPolicy)
             (3 := newBlock byteBlockPolicy 4294967295 [0])\<rparr> 4294967295 = Inr (Some 3)"
    for s rc
    by (simp add: getBlockId_def g t newBlock_def) (simp add: byteBlockPolicy_def)
  have en: "countMiss (enterRead
        \<lparr>statistics = s, referenceCounter = rc, writeBack = True, writeAllocate = True,
           policy = byteBlockPolicy, blocks = initCache byteBlockPolicy\<rparr> False) =
        \<lparr>statistics = s\<lparr>numRead := numRead s + 1, numMiss := numMiss s + 1,
             totalCycles := totalCycles s + 10\<rparr>,
           referenceCounter = rc + 1, writeBack = True, writeAllocate = True,
           policy = byteBlockPolicy, blocks = initCache byteBlockPolicy\<rparr>" for s rc
    by (simp add: countMiss_def enterRead_def tick_def countRead_def addCycles_def
        byteBlockPolicy_def)
  have gb: "map_sum id fst (getByte None
        \<lparr>statistics = \<lparr>numRead = 0, numWrite = 0, numHit = 0, numMiss = 0, totalCycles = 0\<rparr>,
          referenceCounter = 0, writeBack = True, writeAllocate = True,
          policy = byteBlockPolicy, blocks = initCache byteBlockPolicy\<rparr> ()
            lastByteMemory 4294967295 (Some 0) False) = Inr 0"
    by (simp add: getByte_miss [OF miss] en ld hit o touch_def)
  show ?thesis
    by (simp add: byteBlockPolicy_valid n ld m gb newBlock_def)
qed

section \<open>Cold miss, then hit\<close>

text \<open>Claim C2, amended: for a cache without a lower level, with 64-byte blocks, one
  set and one way, the trace \<^verbatim>\<open>r 0\<close>, \<^verbatim>\<open>r 0\<close> gives \<open>numRead = 2\<close>, \<open>numHit = 1\<close>,
  \<open>numMiss = 1\<close> and \<open>totalCycles = hitLatency + missLatency\<close>. The 100 cycles of the
  memory read are added to the caller's cycles variable only (last conjunct), never
  to \<open>totalCycles\<close>.\<close>

theorem cold_miss_then_hit:
  "\<exists>c0 c2 m2.
     newCache (oneBlockPolicy h ms) wb wa = Inr c0 \<and>
     applyOps None [Read 0 None False, Read 0 None False] (c0, (), m) = Inr (c2, (), m2) \<and>
     numRead (statistics c2) = 2 \<and> numHit (statistics c2) = 1 \<and>
     numMiss (statistics c2) = 1 \<and> numWrite (statistics c2) = 0 \<and>
     totalCycles (statistics c2) = ucast h + ucast ms \<and>
     (\<exists>v c1 m1. getByte None c0 () m 0 (Some cy) False = Inr (v, Some (cy + 100), c1, (), m1))"
  by (simp add: newCache_valid [OF oneBlockPolicy_valid])
     (simp add: eval_defs oneBlockPolicy_def)

text \<open>Claim C2 as stated fails: with hit latency 1 and miss latency 10 the total is
  11 cycles, not 111.\<close>

theorem cold_miss_then_hit_total_cycles:
  "\<not> isl (applyOps None [Read 0 None False, Read 0 None False]
       (projr (newCache (oneBlockPolicy 1 10) True True), (), emptyMemory)) \<and>
   totalCycles (statistics (fst (projr (applyOps None [Read 0 None False, Read 0 None False]
       (projr (newCache (oneBlockPolicy 1 10) True True), (), emptyMemory))))) = 11 \<and>
   (11 :: u64) \<noteq> ucast (1 :: u32) + ucast (10 :: u32) + 100"
  by (simp add: newCache_valid [OF oneBlockPolicy_valid])
     (simp add: eval_defs oneBlockPolicy_def)

section \<open>Prefetch reads\<close>

text \<open>Claim C4, amended: a \<^verbatim>\<open>getByte\<close> with the prefetch flag set leaves \<open>numRead\<close>
  alone. When it misses, \<open>numMiss\<close> does not change, and \<open>totalCycles\<close> changes only by
  the write-back charge: \<open>missLatency\<close> is added exactly when write-back is enabled and
  the victim of the fill is valid and modified. When it hits, \<open>numHit\<close> grows by one and
  \<open>hitLatency\<close> is added to \<open>totalCycles\<close>. In both cases the accessed block carries the
  new value of the reference counter afterwards. The fill passes the flag on: the
  result is the same when the lower \<^verbatim>\<open>getByte\<close> is replaced by one that ignores the flag
  it is given and runs as a prefetch.\<close>

theorem prefetch_read_effects:
  assumes "getByte lower c l m addr cyc True = Inr (v, cyc', c', l', m')"
  shows "numRead (statistics c') = numRead (statistics c) \<and>
    (getBlockId c addr = Inr None \<longrightarrow>
       numMiss (statistics c') = numMiss (statistics c) \<and>
       totalCycles (statistics c') = totalCycles (statistics c)
          + (if evictsDirty c addr then ucast (missLatency (policy c)) else 0)) \<and>
    ((\<exists>b. getBlockId c addr = Inr (Some b)) \<longrightarrow>
       numHit (statistics c') = numHit (statistics c) + 1 \<and>
       totalCycles (statistics c') = totalCycles (statistics c) + ucast (hitLatency (policy c))) \<and>
    (\<exists>b. getBlockId c' addr = Inr (Some b) \<and>
         lastReference (blocks c' b) = referenceCounter c' \<and>
         referenceCounter c' = referenceCounter c + 1) \<and>
    (\<forall>lc. lower = Some lc \<longrightarrow>
       getByte (Some (\<lambda>l m a cy f. fst lc l m a cy True, snd lc)) c l m addr cyc True
         = getByte lower c l m addr cyc True)"
proof (intro conjI impI allI)
  show "numRead (statistics c') = numRead (statistics c)"
    using getByte_counts(1) [OF assms] by simp
next
  assume n: "getBlockId c addr = Inr None"
  from getByte_counts(4) [OF assms n]
  show "numMiss (statistics c') = numMiss (statistics c)"
    and "totalCycles (statistics c') = totalCycles (statistics c)
          + (if evictsDirty c addr then ucast (missLatency (policy c)) else 0)"
    by simp_all
next
  assume "\<exists>b. getBlockId c addr = Inr (Some b)"
  then obtain b where b: "getBlockId c addr = Inr (Some b)" ..
  from getByte_counts(3) [OF assms b]
  show "numHit (statistics c') = numHit (statistics c) + 1"
    and "totalCycles (statistics c') = totalCycles (statistics c) + ucast (hitLatency (policy c))"
    by simp_all
next
  from getByte_touched [OF assms]
  show "\<exists>b. getBlockId c' addr = Inr (Some b) \<and>
         lastReference (blocks c' b) = referenceCounter c' \<and>
         referenceCounter c' = referenceCounter c + 1"
    by auto
next
  fix lc assume "lower = Some lc"
  then show "getByte (Some (\<lambda>l m a cy f. fst lc l m a cy True, snd lc)) c l m addr cyc True
         = getByte lower c l m addr cyc True"
    by (simp add: getByte_flag)
qed

text \<open>The prefetch of address 64 into the one-block cache whose block is dirty.\<close>

theorem prefetch_read_effects_witness:
  "\<exists>v cyc' c' l' m'.
     getByte None (fst dirtyOneBlock) () (snd (snd dirtyOneBlock)) 64 None True
        = Inr (v, cyc', c', l', m') \<and>
     getBlockId (fst dirtyOneBlock) 64 = Inr None \<and>
     numRead (statistics c') = numRead (statistics (fst dirtyOneBlock)) \<and>
     numMiss (statistics c') = numMiss (statistics (fst dirtyOneBlock)) \<and>
     totalCycles (statistics c') = totalCycles (statistics (fst dirtyOneBlock))
          + (if evictsDirty (fst dirtyOneBlock) 64
             then ucast (missLatency (policy (fst dirtyOneBlock))) else 0) \<and>
     (\<exists>b. getBlockId c' 64 = Inr (Some b) \<and> lastReference (blocks c' b) = referenceCounter c')"
proof -
  have n: "getBlockId (fst dirtyOneBlock) 64 = Inr None"
    unfolding dirtyOneBlock_eq by (simp add: eval_defs oneBlockPolicy_def)
  have "\<not> isl (getByte None (fst dirtyOneBlock) () (snd (snd dirtyOneBlock)) 64 None True)"
    unfolding dirtyOneBlock_eq by (simp add: eval_defs oneBlockPolicy_def)
  then obtain r where "getByte None (fst dirtyOneBlock) () (snd (snd dirtyOneBlock)) 64 None True = Inr r"
    by (cases "getByte None (fst dirtyOneBlock) () (snd (snd dirtyOneBlock)) 64 None True") auto
  then obtain v cyc' c' l' m' where
    g: "getByte None (fst dirtyOneBlock) () (snd (snd dirtyOneBlock)) 64 None True
        = Inr (v, cyc', c', l', m')"
    by (cases r) auto
  from prefetch_read_effects [OF g] n g show ?thesis by auto
qed

text \<open>Claim C4 as stated fails: a prefetch that misses and evicts a dirty block adds
  \<open>missLatency\<close> to \<open>totalCycles\<close> (here from 10 to 20).\<close>

theorem prefetch_miss_evicting_dirty_block:
  "getBlockId (fst dirtyOneBlock) 64 = Inr None \<and>
   \<not> isl (getByte None (fst dirtyOneBlock) () (snd (snd dirtyOneBlock)) 64 None True) \<and>
   totalCycles (statistics (fst dirtyOneBlock)) = 10 \<and>
   totalCycles (statistics (fst (snd (snd
      (projr (getByte None (fst dirtyOneBlock) () (snd (snd dirtyOneBlock)) 64 None True)))))) = 20"
  unfolding dirtyOneBlock_eq
  by (simp add: eval_defs oneBlockPolicy_def)

section \<open>Eviction of a dirty block\<close>




section \<open>The prefetch controller and the demand counters\<close>

text \<open>Claim C3, amended: for every trace (and whatever the memory managers hold) the
  driver loop of \<^verbatim>\<open>main\<close> and the loop without the prefetch controller either both stop
  at an illegal operation character or both run to the end, and then the L1 counters
  \<open>numRead\<close> and \<open>numWrite\<close> are the same in both. Nothing is said about \<open>numMiss\<close>.\<close>

theorem prefetch_keeps_numRead:
  "(isl (main_loop m trace) \<longleftrightarrow> isl (main_loop_noPrefetch m' trace)) \<and>
   (\<not> isl (main_loop m trace) \<longrightarrow>
      numRead (statistics (fst (snd (projr (main_loop m trace)))))
        = numRead (statistics (fst (projr (main_loop_noPrefetch m' trace)))) \<and>
      numWrite (statistics (fst (snd (projr (main_loop m trace)))))
        = numWrite (statistics (fst (projr (main_loop_noPrefetch m' trace)))))"
proof -
  let ?c1 = "\<lparr>statistics = \<lparr>numRead = 0, numWrite = 0, numHit = 0, numMiss = 0, totalCycles = 0\<rparr>,
      referenceCounter = 0, writeBack = True, writeAllocate = True,
      policy = l1policy, blocks = initCache l1policy\<rparr>"
  let ?c2 = "\<lparr>statistics = \<lparr>numRead = 0, numWrite = 0, numHit = 0, numMiss = 0, totalCycles = 0\<rparr>,
      referenceCounter = 0, writeBack = True, writeAllocate = True,
      policy = l2policy, blocks = initCache l2policy\<rparr>"
  let ?c3 = "\<lparr>statistics = \<lparr>numRead = 0, numWrite = 0, numHit = 0, numMiss = 0, totalCycles = 0\<rparr>,
      referenceCounter = 0, writeBack = True, writeAllocate = True,
      policy = l3policy, blocks = initCache l3policy\<rparr>"
  have w: "wellFormed ?c1" "wellFormed ?c2" "wellFormed ?c3"
    by (rule initCache_wf, rule l1policy_valid, rule initCache_wf, rule l2policy_valid,
        rule initCache_wf, rule l3policy_valid)
  then have i: "(case (?c2, ?c3, ()) of (c2, c3, u) \<Rightarrow> wellFormed c2 \<and> wellFormed c3)" by simp
  have ml: "main_loop m trace = run l1lower trace (initPrefetcher, ?c1, (?c2, ?c3, ()), m)"
    and mn: "main_loop_noPrefetch m' trace = run_noPrefetch l1lower trace (?c1, (?c2, ?c3, ()), m')"
    by (simp_all add: main_loop_def main_loop_noPrefetch_def buildHierarchy_eq)
  from run_sim [OF l1lower_total w(1) i w(1) i refl refl, of trace initPrefetcher m m']
  show ?thesis unfolding ml mn by auto
qed

text \<open>The stride trace runs to the end in both loops.\<close>

theorem prefetch_keeps_numRead_witness:
  "\<not> isl (main_loop emptyMemory strideTrace) \<and>
   \<not> isl (main_loop_noPrefetch emptyMemory strideTrace) \<and>
   numRead (statistics (fst (snd (projr (main_loop emptyMemory strideTrace)))))
     = numRead (statistics (fst (projr (main_loop_noPrefetch emptyMemory strideTrace)))) \<and>
   numWrite (statistics (fst (snd (projr (main_loop emptyMemory strideTrace)))))
     = numWrite (statistics (fst (projr (main_loop_noPrefetch emptyMemory strideTrace))))"
  using prefetch_keeps_numRead [of emptyMemory strideTrace emptyMemory] strideTrace_with_prefetch
  by blast

text \<open>Claim C3 as stated fails: on the stride trace the controller prefetches address
  \<^verbatim>\<open>0x100\<close> after the third read, so the fourth read hits in L1. L1 counts 3 misses
  with the controller and 4 without it.\<close>

theorem prefetch_changes_numMiss:
  "\<not> isl (main_loop emptyMemory strideTrace) \<and>
   \<not> isl (main_loop_noPrefetch emptyMemory strideTrace) \<and>
   numMiss (statistics (fst (snd (projr (main_loop emptyMemory strideTrace))))) = 3 \<and>
   numMiss (statistics (fst (projr (main_loop_noPrefetch emptyMemory strideTrace)))) = 4"
  using strideTrace_with_prefetch strideTrace_without_prefetch by blast

section \<open>The effect of a read and of a write on the block table\<close>

lemma fill_lookup:
  assumes wf: "wellFormed c" and miss: "getBlockId c addr = Inr None"
    and c4: "blocks c4 = (blocks c)(replaceIdOf c addr := newBlock (policy c) addr dat)"
    and p4: "policy c4 = policy c"
  shows "getBlockId c4 addr = Inr (Some (replaceIdOf c addr))"
proof -
  let ?r = "replaceIdOf c addr"
  from wf have v: "isPolicyValid (policy c) = Inr True" by (simp add: wellFormed_def)
  note r = replaceIdOf_window [OF v, of addr]
  have wf4: "wellFormed c4"
    using install_wf [OF wf, of addr dat] c4 p4 by (simp add: wellFormed_def idsConsistent_def)
  have "valid (blocks c4 ?r)" "tag (blocks c4 ?r) = getTag (policy c4) addr"
    using c4 p4 by simp_all
  with getBlockId_present [OF wf4, of addr ?r] r p4 obtain b where
    b: "getBlockId c4 addr = Inr (Some b)" by auto
  have "b = ?r"
  proof (rule ccontr)
    assume ne: "b \<noteq> ?r"
    note s = getBlockId_Some [OF wf4 b]
    from ne c4 have "blocks c4 b = blocks c b" by simp
    with s p4 have "windowBegin (policy c) addr \<le> b" "b < windowEnd (policy c) addr"
      "valid (blocks c b)" "tag (blocks c b) = getTag (policy c) addr" by simp_all
    with getBlockId_None [OF wf miss, of b] show False by simp
  qed
  with b show ?thesis by simp
qed

lemma loadBlock_blocks:
  assumes wf: "wellFormed c" and miss: "getBlockId c addr = Inr None"
    and ld: "loadBlockFromLowerLevel lower c l m addr cyc pf = Inr (cyc', c4, l', m')"
  shows "\<exists>dat. length dat = unat (blockSize (policy c)) \<and>
       blocks c4 = (blocks c)(replaceIdOf c addr := newBlock (policy c) addr dat) \<and>
       getBlockId c4 addr = Inr (Some (replaceIdOf c addr))"
    and "policy c4 = policy c" and "referenceCounter c4 = referenceCounter c"
    and "writeBack c4 = writeBack c" and "writeAllocate c4 = writeAllocate c"
proof -
  from loadBlock_shape [OF ld] obtain dat where len: "length dat = unat (blockSize (policy c))"
    and c': "c4 = (if evictsDirty c addr then addCycles c (missLatency (policy c)) else c)
            \<lparr>blocks := (blocks c)(replaceIdOf c addr := newBlock (policy c) addr dat)\<rparr>"
    by blast
  from c' have b: "blocks c4 = (blocks c)(replaceIdOf c addr := newBlock (policy c) addr dat)"
    and p: "policy c4 = policy c" by simp_all
  from fill_lookup [OF wf miss b p] len b
  show "\<exists>dat. length dat = unat (blockSize (policy c)) \<and>
       blocks c4 = (blocks c)(replaceIdOf c addr := newBlock (policy c) addr dat) \<and>
       getBlockId c4 addr = Inr (Some (replaceIdOf c addr))" by blast
  from c' show "policy c4 = policy c" "referenceCounter c4 = referenceCounter c"
    "writeBack c4 = writeBack c" "writeAllocate c4 = writeAllocate c" by simp_all
qed

lemma replaceIdOf_cong:
  "blocks c' = blocks c \<Longrightarrow> policy c' = policy c \<Longrightarrow> replaceIdOf c' addr = replaceIdOf c addr"
  by (simp add: replaceIdOf_def)

lemma getByte_blocks:
  assumes wf: "wellFormed c"
    and g: "getByte lower c l m addr cyc pf = Inr (v, cyc', c', l', m')"
  shows "(\<exists>b. getBlockId c addr = Inr (Some b) \<and>
            blocks c' = (blocks c)(b := (blocks c b)\<lparr>lastReference := referenceCounter c + 1\<rparr>) \<and>
            v = data (blocks c b) ! unat (getOffset (policy c) addr)) \<or>
         (getBlockId c addr = Inr None \<and>
            (\<exists>dat. length dat = unat (blockSize (policy c)) \<and>
               blocks c' = (blocks c)(replaceIdOf c addr :=
                  (newBlock (policy c) addr dat)\<lparr>lastReference := referenceCounter c + 1\<rparr>)))"
    and "referenceCounter c' = referenceCounter c + 1"
    and "writeBack c' = writeBack c" and "writeAllocate c' = writeAllocate c"
proof -
  let ?c3 = "if \<not> pf then countMiss (enterRead c pf) else enterRead c pf"
  have c3: "wellFormed ?c3" "policy ?c3 = policy c" "blocks ?c3 = blocks c"
    "referenceCounter ?c3 = referenceCounter c + 1" "writeBack ?c3 = writeBack c"
    "writeAllocate ?c3 = writeAllocate c" "getBlockId ?c3 addr = getBlockId c addr"
    using wf by simp_all
  from getByte_lookup_cases [OF g]
  have "((\<exists>b. getBlockId c addr = Inr (Some b) \<and>
            blocks c' = (blocks c)(b := (blocks c b)\<lparr>lastReference := referenceCounter c + 1\<rparr>) \<and>
            v = data (blocks c b) ! unat (getOffset (policy c) addr)) \<or>
         (getBlockId c addr = Inr None \<and>
            (\<exists>dat. length dat = unat (blockSize (policy c)) \<and>
               blocks c' = (blocks c)(replaceIdOf c addr :=
                  (newBlock (policy c) addr dat)\<lparr>lastReference := referenceCounter c + 1\<rparr>)))) \<and>
        referenceCounter c' = referenceCounter c + 1 \<and>
        writeBack c' = writeBack c \<and> writeAllocate c' = writeAllocate c"
  proof
    assume "\<exists>b. getBlockId c addr = Inr (Some b)"
    then obtain b where b: "getBlockId c addr = Inr (Some b)" ..
    with g have "c' = touch (countHit (enterRead c pf)) b"
      and "v = data (blocks c b) ! unat (getOffset (policy c) addr)"
      by (auto simp: getByte_hit)
    with b show ?thesis by simp
  next
    assume n: "getBlockId c addr = Inr None"
    from g n obtain c4 b where
      ld: "loadBlockFromLowerLevel lower ?c3 l m addr cyc pf = Inr (cyc', c4, l', m')"
      and b: "getBlockId c4 addr = Inr (Some b)"
      and c': "c' = touch c4 b"
      by (auto simp: getByte_miss split: sum.splits option.splits)
    from n c3(7) have n3: "getBlockId ?c3 addr = Inr None" by simp
    have r3: "replaceIdOf ?c3 addr = replaceIdOf c addr"
      by (rule replaceIdOf_cong) (simp_all add: c3)
    from loadBlock_blocks(1) [OF c3(1) n3 ld] obtain dat where
      d: "length dat = unat (blockSize (policy c))"
        "blocks c4 = (blocks c)(replaceIdOf c addr := newBlock (policy c) addr dat)"
        "getBlockId c4 addr = Inr (Some (replaceIdOf c addr))"
      unfolding r3 c3(2,3) by blast
    from d(3) b have br: "b = replaceIdOf c addr" by simp
    note f = loadBlock_blocks(2-5) [OF c3(1) n3 ld]
    from c' br d(2) f(2) c3(4) have "blocks c' = (blocks c)(replaceIdOf c addr :=
                  (newBlock (policy c) addr dat)\<lparr>lastReference := referenceCounter c + 1\<rparr>)"
      by simp
    with n d(1) c' f c3 show ?thesis by auto
  qed
  then show "(\<exists>b. getBlockId c addr = Inr (Some b) \<and>
            blocks c' = (blocks c)(b := (blocks c b)\<lparr>lastReference := referenceCounter c + 1\<rparr>) \<and>
            v = data (blocks c b) ! unat (getOffset (policy c) addr)) \<or>
         (getBlockId c addr = Inr None \<and>
            (\<exists>dat. length dat = unat (blockSize (policy c)) \<and>
               blocks c' = (blocks c)(replaceIdOf c addr :=
                  (newBlock (policy c) addr dat)\<lparr>lastReference := referenceCounter c + 1\<rparr>)))"
    and "referenceCounter c' = referenceCounter c + 1"
    and "writeBack c' = writeBack c" and "writeAllocate c' = writeAllocate c"
    by blast+
qed

lemma setByte_blocks:
  assumes wf: "wellFormed c"
    and g: "setByte lower c l m addr val cyc = Inr (cyc', c', l', m')"
  shows "(\<exists>b. getBlockId c addr = Inr (Some b) \<and>
            blocks c' = (blocks c)(b := (blocks c b)
               \<lparr>modified := True, lastReference := referenceCounter c + 1,
                data := (data (blocks c b))[unat (getOffset (policy c) addr) := val]\<rparr>)) \<or>
         (getBlockId c addr = Inr None \<and> writeAllocate c \<and>
            (\<exists>dat. length dat = unat (blockSize (policy c)) \<and>
               blocks c' = (blocks c)(replaceIdOf c addr :=
                  (newBlock (policy c) addr dat)
                    \<lparr>modified := True, lastReference := referenceCounter c + 1,
                     data := dat[unat (getOffset (policy c) addr) := val]\<rparr>))) \<or>
         (getBlockId c addr = Inr None \<and> \<not> writeAllocate c \<and> blocks c' = blocks c)"
    and "referenceCounter c' = referenceCounter c + 1"
    and "writeBack c' = writeBack c" and "writeAllocate c' = writeAllocate c"
proof -
  let ?c3 = "countMiss (enterWrite c)"
  have c3: "wellFormed ?c3" "policy ?c3 = policy c" "blocks ?c3 = blocks c"
    "referenceCounter ?c3 = referenceCounter c + 1" "writeBack ?c3 = writeBack c"
    "writeAllocate ?c3 = writeAllocate c" "getBlockId ?c3 addr = getBlockId c addr"
    using wf by simp_all
  from setByte_lookup_cases [OF g]
  have "((\<exists>b. getBlockId c addr = Inr (Some b) \<and>
            blocks c' = (blocks c)(b := (blocks c b)
               \<lparr>modified := True, lastReference := referenceCounter c + 1,
                data := (data (blocks c b))[unat (getOffset (policy c) addr) := val]\<rparr>)) \<or>
         (getBlockId c addr = Inr None \<and> writeAllocate c \<and>
            (\<exists>dat. length dat = unat (blockSize (policy c)) \<and>
               blocks c' = (blocks c)(replaceIdOf c addr :=
                  (newBlock (policy c) addr dat)
                    \<lparr>modified := True, lastReference := referenceCounter c + 1,
                     data := dat[unat (getOffset (policy c) addr) := val]\<rparr>))) \<or>
         (getBlockId c addr = Inr None \<and> \<not> writeAllocate c \<and> blocks c' = blocks c)) \<and>
        referenceCounter c' = referenceCounter c + 1 \<and>
        writeBack c' = writeBack c \<and> writeAllocate c' = writeAllocate c"
  proof
    assume "\<exists>b. getBlockId c addr = Inr (Some b)"
    then obtain b where b: "getBlockId c addr = Inr (Some b)" ..
    let ?s = "store (countHit (enterWrite c)) b (getOffset (policy c) addr) val"
    from g b have "c' = ?s \<or> c' = addCycles ?s (missLatency (policy c))"
      by (auto simp: setByte_hit Let_def split: if_splits sum.splits)
    then have "blocks c' = blocks ?s" "referenceCounter c' = referenceCounter c + 1"
      "writeBack c' = writeBack c" "writeAllocate c' = writeAllocate c"
      by auto
    with b show ?thesis by simp
  next
    assume n: "getBlockId c addr = Inr None"
    show ?thesis
    proof (cases "writeAllocate c")
      case True
      from g n True obtain c4 b where
        ld: "loadBlockFromLowerLevel lower ?c3 l m addr cyc False = Inr (cyc', c4, l', m')"
        and b: "getBlockId c4 addr = Inr (Some b)"
        and c': "c' = store c4 b (getOffset (policy c4) addr) val"
        by (auto simp: setByte_miss split: sum.splits option.splits)
      from n c3(7) have n3: "getBlockId ?c3 addr = Inr None" by simp
      have r3: "replaceIdOf ?c3 addr = replaceIdOf c addr"
        by (rule replaceIdOf_cong) (simp_all add: c3)
      from loadBlock_blocks(1) [OF c3(1) n3 ld] obtain dat where
        d: "length dat = unat (blockSize (policy c))"
          "blocks c4 = (blocks c)(replaceIdOf c addr := newBlock (policy c) addr dat)"
          "getBlockId c4 addr = Inr (Some (replaceIdOf c addr))"
        unfolding r3 c3(2,3) by blast
      from d(3) b have br: "b = replaceIdOf c addr" by simp
      note f = loadBlock_blocks(2-5) [OF c3(1) n3 ld]
      from c' br d(2) f(1,2) c3(2,4) have "blocks c' = (blocks c)(replaceIdOf c addr :=
                  (newBlock (policy c) addr dat)
                    \<lparr>modified := True, lastReference := referenceCounter c + 1,
                     data := dat[unat (getOffset (policy c) addr) := val]\<rparr>)"
        by simp
      with n True d(1) c' f c3 show ?thesis by auto
    next
      case False
      with g n have "c' = ?c3"
        by (auto simp: setByte_miss split: sum.splits option.splits)
      with n False c3 show ?thesis by simp
    qed
  qed
  then show "(\<exists>b. getBlockId c addr = Inr (Some b) \<and>
            blocks c' = (blocks c)(b := (blocks c b)
               \<lparr>modified := True, lastReference := referenceCounter c + 1,
                data := (data (blocks c b))[unat (getOffset (policy c) addr) := val]\<rparr>)) \<or>
         (getBlockId c addr = Inr None \<and> writeAllocate c \<and>
            (\<exists>dat. length dat = unat (blockSize (policy c)) \<and>
               blocks c' = (blocks c)(replaceIdOf c addr :=
                  (newBlock (policy c) addr dat)
                    \<lparr>modified := True, lastReference := referenceCounter c + 1,
                     data := dat[unat (getOffset (policy c) addr) := val]\<rparr>))) \<or>
         (getBlockId c addr = Inr None \<and> \<not> writeAllocate c \<and> blocks c' = blocks c)"
    and "referenceCounter c' = referenceCounter c + 1"
    and "writeBack c' = writeBack c" and "writeAllocate c' = writeAllocate c"
    by blast+
qed

section \<open>Caches in good state\<close>

lemma window_iff:
  assumes v: "isPolicyValid p = Inr True"
  shows "(windowBegin p addr \<le> i \<and> i < windowEnd p addr)
     \<longleftrightarrow> (i < unat (blockNum p) \<and> i div unat (associativity p) = unat (getId p addr))"
proof
  assume "windowBegin p addr \<le> i \<and> i < windowEnd p addr"
  then show "i < unat (blockNum p) \<and> i div unat (associativity p) = unat (getId p addr)"
    using window_div [OF v, of addr i] by simp
next
  assume a: "i < unat (blockNum p) \<and> i div unat (associativity p) = unat (getId p addr)"
  note w = window_facts [OF v, of addr]
  note f = valid_policy_facts [OF v]
  let ?A = "unat (associativity p)"
  from a have d: "i div ?A = unat (getId p addr)" by simp
  have "(i div ?A) * ?A \<le> i" by simp
  moreover have "i < (i div ?A + 1) * ?A"
    using f(1) dividend_less_div_times [of ?A i] by (simp add: algebra_simps)
  ultimately show "windowBegin p addr \<le> i \<and> i < windowEnd p addr"
    unfolding w(1,2) d by simp
qed

lemma word_le_succ:
  assumes "x \<le> (r :: u32)" "r \<noteq> - 1"
  shows "x \<le> r + 1" "x \<noteq> r + 1" "r < r + 1"
proof -
  from assms(2) have "r + 1 \<noteq> 0" by (simp add: eq_neg_iff_add_eq_0)
  then have u: "unat (r + 1) = unat r + 1" by (simp add: add.commute unatSuc)
  from assms(1) have "unat x \<le> unat r" by (simp add: word_le_nat_alt)
  with u show "x \<le> r + 1" "r < r + 1" by (simp_all add: word_le_nat_alt word_less_nat_alt)
  from \<open>unat x \<le> unat r\<close> u show "x \<noteq> r + 1" by auto
qed

lemma good_update:
  assumes g: "goodCache c" and nw: "referenceCounter c \<noteq> - 1"
    and b': "blocks c' = (blocks c)(b := nb)"
    and nb: "valid nb = valid (blocks c b)" "tag nb = tag (blocks c b)" "id_b nb = id_b (blocks c b)"
      "lastReference nb = referenceCounter c + 1" "length (data nb) = length (data (blocks c b))"
    and p': "policy c' = policy c" and r': "referenceCounter c' = referenceCounter c + 1"
  shows "goodCache c'"
proof -
  from g have wf: "wellFormed c" and td: "tagsDistinct c" and rb: "refsBounded c" and ds: "dataSized c"
    by (simp_all add: goodCache_def)
  have e: "\<And>i. valid (blocks c' i) = valid (blocks c i)"
    "\<And>i. tag (blocks c' i) = tag (blocks c i)"
    "\<And>i. id_b (blocks c' i) = id_b (blocks c i)"
    "\<And>i. length (data (blocks c' i)) = length (data (blocks c i))"
    using b' nb by simp_all
  have 1: "wellFormed c'" by (rule wellFormed_cong [OF wf p' e(3)])
  have 2: "tagsDistinct c'"
    unfolding tagsDistinct_def e p' using td unfolding tagsDistinct_def .
  have 3: "refsBounded c'"
    unfolding refsBounded_def
  proof (intro allI impI)
    fix i assume i: "i < unat (blockNum (policy c'))" "valid (blocks c' i)"
    show "lastReference (blocks c' i) \<le> referenceCounter c'"
    proof (cases "i = b")
      case True
      then show ?thesis using b' r' nb(4) by simp
    next
      case False
      with i b' p' rb have "lastReference (blocks c i) \<le> referenceCounter c"
        by (simp add: refsBounded_def)
      from word_le_succ(1) [OF this nw] False b' r' show ?thesis by simp
    qed
  qed
  have 4: "dataSized c'"
    unfolding dataSized_def e p' using ds unfolding dataSized_def .
  from 1 2 3 4 show ?thesis by (simp add: goodCache_def)
qed

lemma good_tick:
  assumes g: "goodCache c" and nw: "referenceCounter c \<noteq> - 1"
    and b': "blocks c' = blocks c"
    and p': "policy c' = policy c" and r': "referenceCounter c' = referenceCounter c + 1"
  shows "goodCache c'"
proof -
  from g have wf: "wellFormed c" and td: "tagsDistinct c" and rb: "refsBounded c" and ds: "dataSized c"
    by (simp_all add: goodCache_def)
  have 1: "wellFormed c'" using wf by (rule wellFormed_cong) (simp_all add: b' p')
  have 2: "tagsDistinct c'"
    unfolding tagsDistinct_def b' p' using td unfolding tagsDistinct_def .
  have 3: "refsBounded c'"
    unfolding refsBounded_def b' p' r'
    using rb word_le_succ(1) [OF _ nw] unfolding refsBounded_def by blast
  have 4: "dataSized c'"
    unfolding dataSized_def b' p' using ds unfolding dataSized_def .
  from 1 2 3 4 show ?thesis by (simp add: goodCache_def)
qed

lemma good_install:
  assumes g: "goodCache c" and nw: "referenceCounter c \<noteq> - 1"
    and miss: "getBlockId c addr = Inr None"
    and b': "blocks c' = (blocks c)(replaceIdOf c addr := nb)"
    and nb: "valid nb" "tag nb = getTag (policy c) addr" "id_b nb = getId (policy c) addr"
      "lastReference nb = referenceCounter c + 1" "length (data nb) = unat (blockSize (policy c))"
    and p': "policy c' = policy c" and r': "referenceCounter c' = referenceCounter c + 1"
  shows "goodCache c'"
proof -
  let ?r = "replaceIdOf c addr" and ?A = "unat (associativity (policy c))"
  from g have wf: "wellFormed c" and td: "tagsDistinct c" and rb: "refsBounded c" and ds: "dataSized c"
    by (simp_all add: goodCache_def)
  from wf have v: "isPolicyValid (policy c) = Inr True" and ids: "idsConsistent c"
    by (simp_all add: wellFormed_def)
  note r = replaceIdOf_window [OF v, of addr]
  note rd = window_div [OF v r]
  have 1: "wellFormed c'"
    using v ids rd nb(3) b' p' by (simp add: wellFormed_def idsConsistent_def)
  have other: "tag (blocks c j) \<noteq> getTag (policy c) addr"
    if "j < unat (blockNum (policy c))" "valid (blocks c j)" "j div ?A = ?r div ?A" for j
  proof -
    from that(1,3) rd(1) have "windowBegin (policy c) addr \<le> j \<and> j < windowEnd (policy c) addr"
      by (simp add: window_iff [OF v])
    with getBlockId_None [OF wf miss, of j] that(2) show ?thesis by simp
  qed
  have 2: "tagsDistinct c'"
    unfolding tagsDistinct_def
  proof (intro allI impI)
    fix i j
    assume a: "i < unat (blockNum (policy c')) \<and> j < unat (blockNum (policy c')) \<and>
        valid (blocks c' i) \<and> valid (blocks c' j) \<and>
        i div unat (associativity (policy c')) = j div unat (associativity (policy c')) \<and>
        tag (blocks c' i) = tag (blocks c' j)"
    show "i = j"
    proof (cases "i = ?r")
      case True
      show ?thesis
      proof (rule ccontr)
        assume ne: "i \<noteq> j"
        from ne True b' have "blocks c' j = blocks c j" "blocks c' i = nb" by simp_all
        with True a p' nb(2) have "j < unat (blockNum (policy c))" "valid (blocks c j)"
          "j div ?A = ?r div ?A" "tag (blocks c j) = getTag (policy c) addr" by simp_all
        with other [of j] show False by simp
      qed
    next
      case False
      show ?thesis
      proof (cases "j = ?r")
        case True
        show ?thesis
        proof (rule ccontr)
          assume ne: "i \<noteq> j"
          from ne True b' have "blocks c' i = blocks c i" "blocks c' j = nb" by simp_all
          with True a p' nb(2) have "i < unat (blockNum (policy c))" "valid (blocks c i)"
            "i div ?A = ?r div ?A" "tag (blocks c i) = getTag (policy c) addr" by simp_all
          with other [of i] show False by simp
        qed
      next
        case jf: False
        from False jf b' have "blocks c' i = blocks c i" "blocks c' j = blocks c j" by simp_all
        with a p' have "i < unat (blockNum (policy c)) \<and> j < unat (blockNum (policy c)) \<and>
          valid (blocks c i) \<and> valid (blocks c j) \<and>
          i div unat (associativity (policy c)) = j div unat (associativity (policy c)) \<and>
          tag (blocks c i) = tag (blocks c j)" by simp
        with td show ?thesis unfolding tagsDistinct_def by blast
      qed
    qed
  qed
  have 3: "refsBounded c'"
    unfolding refsBounded_def
  proof (intro allI impI)
    fix i assume i: "i < unat (blockNum (policy c'))" "valid (blocks c' i)"
    show "lastReference (blocks c' i) \<le> referenceCounter c'"
    proof (cases "i = ?r")
      case True
      then show ?thesis using b' r' nb(4) by simp
    next
      case False
      with i b' p' rb have "lastReference (blocks c i) \<le> referenceCounter c"
        by (simp add: refsBounded_def)
      from word_le_succ(1) [OF this nw] False b' r' show ?thesis by simp
    qed
  qed
  have 4: "dataSized c'"
    unfolding dataSized_def
  proof (intro allI impI)
    fix i assume i: "i < unat (blockNum (policy c'))"
    show "length (data (blocks c' i)) = unat (blockSize (policy c'))"
    proof (cases "i = ?r")
      case True
      then show ?thesis using b' p' nb(5) by simp
    next
      case False
      with i b' p' ds show ?thesis by (simp add: dataSized_def)
    qed
  qed
  from 1 2 3 4 show ?thesis by (simp add: goodCache_def)
qed


lemma getByte_good:
  assumes g: "goodCache c" and nw: "referenceCounter c \<noteq> - 1"
    and r: "getByte lower c l m addr cyc pf = Inr (v, cyc', c', l', m')"
  shows "goodCache c'" "referenceCounter c' = referenceCounter c + 1" "policy c' = policy c"
    "writeAllocate c' = writeAllocate c"
proof -
  from g have wf: "wellFormed c" by (simp add: goodCache_def)
  note gb = getByte_blocks [OF wf r]
  note p' = getByte_wf(2) [OF wf r]
  show "referenceCounter c' = referenceCounter c + 1" "policy c' = policy c"
    "writeAllocate c' = writeAllocate c" by (rule gb(2), rule p', rule gb(4))
  from gb(1) show "goodCache c'"
  proof
    assume "\<exists>b. getBlockId c addr = Inr (Some b) \<and>
            blocks c' = (blocks c)(b := (blocks c b)\<lparr>lastReference := referenceCounter c + 1\<rparr>) \<and>
            v = data (blocks c b) ! unat (getOffset (policy c) addr)"
    then obtain b where
      "blocks c' = (blocks c)(b := (blocks c b)\<lparr>lastReference := referenceCounter c + 1\<rparr>)"
      by blast
    then show ?thesis by (rule good_update [OF g nw]) (simp_all add: p' gb(2))
  next
    assume "getBlockId c addr = Inr None \<and>
            (\<exists>dat. length dat = unat (blockSize (policy c)) \<and>
               blocks c' = (blocks c)(replaceIdOf c addr :=
                  (newBlock (policy c) addr dat)\<lparr>lastReference := referenceCounter c + 1\<rparr>))"
    then obtain dat where n: "getBlockId c addr = Inr None"
      and d: "length dat = unat (blockSize (policy c))"
      and b: "blocks c' = (blocks c)(replaceIdOf c addr :=
                  (newBlock (policy c) addr dat)\<lparr>lastReference := referenceCounter c + 1\<rparr>)"
      by blast
    from b show ?thesis by (rule good_install [OF g nw n]) (simp_all add: p' gb(2) d)
  qed
qed

lemma setByte_good:
  assumes g: "goodCache c" and nw: "referenceCounter c \<noteq> - 1"
    and r: "setByte lower c l m addr val cyc = Inr (cyc', c', l', m')"
  shows "goodCache c'" "referenceCounter c' = referenceCounter c + 1" "policy c' = policy c"
    "writeAllocate c' = writeAllocate c"
proof -
  from g have wf: "wellFormed c" by (simp add: goodCache_def)
  note gb = setByte_blocks [OF wf r]
  note p' = setByte_wf(2) [OF wf r]
  show "referenceCounter c' = referenceCounter c + 1" "policy c' = policy c"
    "writeAllocate c' = writeAllocate c" by (rule gb(2), rule p', rule gb(4))
  from gb(1) consider
    (hit) b where "blocks c' = (blocks c)(b := (blocks c b)
               \<lparr>modified := True, lastReference := referenceCounter c + 1,
                data := (data (blocks c b))[unat (getOffset (policy c) addr) := val]\<rparr>)"
    | (fill) dat where "getBlockId c addr = Inr None" "length dat = unat (blockSize (policy c))"
        "blocks c' = (blocks c)(replaceIdOf c addr :=
                  (newBlock (policy c) addr dat)
                    \<lparr>modified := True, lastReference := referenceCounter c + 1,
                     data := dat[unat (getOffset (policy c) addr) := val]\<rparr>)"
    | (around) "blocks c' = blocks c"
    by blast
  then show "goodCache c'"
  proof cases
    case hit
    then show ?thesis by (rule good_update [OF g nw]) (simp_all add: p' gb(2))
  next
    case fill
    from fill(3) show ?thesis by (rule good_install [OF g nw fill(1)]) (simp_all add: p' gb(2) fill(2))
  next
    case around
    then show ?thesis by (rule good_tick [OF g nw]) (simp_all add: p' gb(2))
  qed
qed

lemma newCache_good:
  assumes "newCache p wb wa = Inr c"
  shows "goodCache c" "referenceCounter c = 0" "writeAllocate c = wa" "policy c = p"
proof -
  from assms isPolicyValid_cases [of p] have v: "isPolicyValid p = Inr True"
    by (auto simp: newCache_def)
  from newCache_valid [OF v, of wb wa] assms have c: "c =
     \<lparr>statistics = \<lparr>numRead = 0, numWrite = 0, numHit = 0, numMiss = 0, totalCycles = 0\<rparr>,
          referenceCounter = 0, writeBack = wb, writeAllocate = wa,
          policy = p, blocks = initCache p\<rparr>" by simp
  then show "referenceCounter c = 0" "writeAllocate c = wa" "policy c = p" by simp_all
  from c newCache_wf(1) [OF assms] show "goodCache c"
    by (simp add: goodCache_def tagsDistinct_def refsBounded_def dataSized_def
        initCache_def initBlock_def)
qed

lemma unat_succ_u32:
  assumes "unat (r :: u32) + 1 < 2 ^ 32"
  shows "r \<noteq> - 1" "unat (r + 1) = unat r + 1"
proof -
  show "r \<noteq> - 1"
  proof
    assume "r = - 1"
    then have "unat r = 2 ^ 32 - 1" by (simp add: unsigned_minus_1_eq_mask mask_eq_exp_minus_1)
    with assms show False by simp
  qed
  then have "r + 1 \<noteq> 0" by (simp add: eq_neg_iff_add_eq_0)
  then show "unat (r + 1) = unat r + 1" by (simp add: add.commute unatSuc)
qed

lemma applyOps_good:
  "goodCache c \<Longrightarrow> unat (referenceCounter c) + length ops < 2 ^ 32 \<Longrightarrow>
   applyOps lower ops (c, l, m) = Inr (c', l', m') \<Longrightarrow>
   goodCache c' \<and> unat (referenceCounter c') = unat (referenceCounter c) + length ops \<and>
   policy c' = policy c \<and> writeAllocate c' = writeAllocate c"
proof (induction ops arbitrary: c l m)
  case Nil
  then show ?case by simp
next
  case (Cons op ops)
  from Cons.prems(2) have s: "unat (referenceCounter c) + 1 < 2 ^ 32" by simp
  note u = unat_succ_u32 [OF s]
  show ?case
  proof (cases op)
    case (Read addr cyc pf)
    with Cons.prems(3) obtain v cyc1 c1 l1 m1 where
      g: "getByte lower c l m addr cyc pf = Inr (v, cyc1, c1, l1, m1)"
      and r: "applyOps lower ops (c1, l1, m1) = Inr (c', l', m')"
      by (auto split: sum.splits)
    note gg = getByte_good [OF Cons.prems(1) u(1) g]
    from gg(2) u(2) Cons.prems(2) have "unat (referenceCounter c1) + length ops < 2 ^ 32" by simp
    from Cons.IH [OF gg(1) this r] gg(2-4) u(2) show ?thesis by simp
  next
    case (Write addr val cyc)
    with Cons.prems(3) obtain cyc1 c1 l1 m1 where
      g: "setByte lower c l m addr val cyc = Inr (cyc1, c1, l1, m1)"
      and r: "applyOps lower ops (c1, l1, m1) = Inr (c', l', m')"
      by (auto split: sum.splits)
    note gg = setByte_good [OF Cons.prems(1) u(1) g]
    from gg(2) u(2) Cons.prems(2) have "unat (referenceCounter c1) + length ops < 2 ^ 32" by simp
    from Cons.IH [OF gg(1) this r] gg(2-4) u(2) show ?thesis by simp
  qed
qed

section \<open>A written block survives while its set has room\<close>

lemma getOffset_bound:
  assumes "isPolicyValid p = Inr True"
  shows "unat (getOffset p addr) < unat (blockSize p)"
proof -
  note f = valid_policy_facts [OF assms]
  from f(4) have "blockSize p \<noteq> 0" by (auto simp: unat_gt_0)
  from log2i_spec [OF this] have k: "unat (log2i (blockSize p)) < 32"
    "2 ^ unat (log2i (blockSize p)) \<le> unat (blockSize p)" by simp_all
  have "unat (getOffset p addr) < 2 ^ unat (log2i (blockSize p))"
    unfolding getOffset_def Let_def shl32_def using and_mask_bound [OF k(1)] k(1) by simp
  with k(2) show ?thesis by simp
qed

lemma windows_disjoint:
  assumes v: "isPolicyValid p = Inr True"
    and x: "windowBegin p x \<le> i" "i < windowEnd p x"
    and a: "windowBegin p A \<le> i" "i < windowEnd p A"
  shows "getId p x = getId p A"
proof -
  from x a have "unat (getId p x) = unat (getId p A)"
    using window_iff [OF v, of x i] window_iff [OF v, of A i] by simp
  then show ?thesis by (simp add: word_unat_eq_iff)
qed

lemma window_same_id:
  "getId p x = getId p A \<Longrightarrow> windowBegin p x = windowBegin p A \<and> windowEnd p x = windowEnd p A"
  by (simp add: windowBegin_def windowEnd_def)

lemma keeps_lookup:
  assumes g: "goodCache c" and k: "keeps c A v a T"
  shows "getBlockId c A = Inr (Some a)"
proof -
  from g have wf: "wellFormed c" and td: "tagsDistinct c" by (simp_all add: goodCache_def)
  from wf have pv: "isPolicyValid (policy c) = Inr True" by (simp add: wellFormed_def)
  from k have ka: "windowBegin (policy c) A \<le> a" "a < windowEnd (policy c) A"
    "valid (blocks c a)" "tag (blocks c a) = getTag (policy c) A"
    by (simp_all add: keeps_def)
  from getBlockId_present [OF wf ka] obtain b where b: "getBlockId c A = Inr (Some b)" ..
  note s = getBlockId_Some [OF wf b]
  from window_iff [OF pv, of A a] window_iff [OF pv, of A b] ka(1,2) s(1,2)
  have "a < unat (blockNum (policy c))" "b < unat (blockNum (policy c))"
    "a div unat (associativity (policy c)) = b div unat (associativity (policy c))" by simp_all
  with td ka(3,4) s(3,4) have "a = b" unfolding tagsDistinct_def by metis
  with b show ?thesis by simp
qed

lemma keeps_final:
  assumes g: "goodCache c" and k: "keeps c A v a T"
  shows "\<exists>cyc' c' l' m'. getByte lower c l m A cyc pf = Inr (v, cyc', c', l', m')"
proof -
  from k have "data (blocks c a) ! unat (getOffset (policy c) A) = v" by (simp add: keeps_def)
  with keeps_lookup [OF g k] show ?thesis by (simp add: getByte_hit)
qed

lemma keeps_after_write:
  assumes g: "goodCache c" and nw: "referenceCounter c \<noteq> - 1" and wa: "writeAllocate c"
    and s: "setByte lower c l m A v cyc = Inr (cyc', c', l', m')"
  shows "\<exists>a. keeps c' A v a T"
proof -
  from g have wf: "wellFormed c" and rb: "refsBounded c" and ds: "dataSized c"
    by (simp_all add: goodCache_def)
  from wf have pv: "isPolicyValid (policy c) = Inr True" by (simp add: wellFormed_def)
  note p' = setByte_wf(2) [OF wf s]
  note off = getOffset_bound [OF pv, of A]
  have old: "lastReference (blocks c i) \<noteq> referenceCounter c + 1 \<and>
      \<not> referenceCounter c + 1 < lastReference (blocks c i)"
    if "windowBegin (policy c) A \<le> i" "i < windowEnd (policy c) A" "valid (blocks c i)" for i
  proof -
    from window_div(2) [OF pv that(1,2)] that(3) rb
    have le: "lastReference (blocks c i) \<le> referenceCounter c" by (simp add: refsBounded_def)
    from word_le_succ [OF le nw] show ?thesis by auto
  qed
  from setByte_blocks(1) [OF wf s] wa consider
    (hit) b where "getBlockId c A = Inr (Some b)" "blocks c' = (blocks c)(b := (blocks c b)
               \<lparr>modified := True, lastReference := referenceCounter c + 1,
                data := (data (blocks c b))[unat (getOffset (policy c) A) := v]\<rparr>)"
    | (fill) dat where "getBlockId c A = Inr None" "length dat = unat (blockSize (policy c))"
        "blocks c' = (blocks c)(replaceIdOf c A :=
                  (newBlock (policy c) A dat)
                    \<lparr>modified := True, lastReference := referenceCounter c + 1,
                     data := dat[unat (getOffset (policy c) A) := v]\<rparr>)"
    by blast
  then show ?thesis
  proof cases
    case hit
    note sb = getBlockId_Some [OF wf hit(1)]
    from ds sb(5) have "length (data (blocks c b)) = unat (blockSize (policy c))"
      by (simp add: dataSized_def)
    with off have "(data (blocks c b))[unat (getOffset (policy c) A) := v]
        ! unat (getOffset (policy c) A) = v" by simp
    with sb hit(2) p' old have "keeps c' A v b T"
      unfolding keeps_def by auto
    then show ?thesis ..
  next
    case fill
    note r = replaceIdOf_window [OF pv, of A]
    from off fill(2) have "dat[unat (getOffset (policy c) A) := v]
        ! unat (getOffset (policy c) A) = v" by simp
    with r fill(3) p' old have "keeps c' A v (replaceIdOf c A) T"
      unfolding keeps_def by auto
    then show ?thesis ..
  qed
qed


lemma keeps_update_other:
  assumes k: "keeps c A v a T" and p': "policy c' = policy c"
    and b': "blocks c' = (blocks c)(j := nb)" and ne: "j \<noteq> a"
    and new: "windowBegin (policy c) A \<le> j \<Longrightarrow> j < windowEnd (policy c) A \<Longrightarrow> valid nb \<Longrightarrow>
       lastReference nb \<noteq> lastReference (blocks c a) \<and> tag nb \<in> T"
  shows "keeps c' A v a T"
proof -
  from ne b' have sa: "blocks c' a = blocks c a" by simp
  have "lastReference (blocks c' i) \<noteq> lastReference (blocks c' a) \<and>
     (lastReference (blocks c' a) < lastReference (blocks c' i) \<longrightarrow> tag (blocks c' i) \<in> T)"
    if i: "windowBegin (policy c) A \<le> i" "i < windowEnd (policy c) A" "i \<noteq> a" "valid (blocks c' i)"
    for i
  proof (cases "i = j")
    case True
    with b' have "blocks c' i = nb" by simp
    with new i True sa show ?thesis by simp
  next
    case False
    with b' have "blocks c' i = blocks c i" by simp
    with k i sa show ?thesis unfolding keeps_def by metis
  qed
  with k sa p' show ?thesis unfolding keeps_def by simp
qed

lemma keeps_touch_self:
  assumes k: "keeps c A v a T" and p': "policy c' = policy c"
    and b': "blocks c' = (blocks c)(a := (blocks c a)\<lparr>lastReference := R\<rparr>)"
    and old: "\<And>i. windowBegin (policy c) A \<le> i \<Longrightarrow> i < windowEnd (policy c) A \<Longrightarrow> i \<noteq> a \<Longrightarrow>
       valid (blocks c i) \<Longrightarrow> lastReference (blocks c i) \<noteq> R \<and> \<not> R < lastReference (blocks c i)"
  shows "keeps c' A v a T"
proof -
  from b' have sa: "blocks c' a = (blocks c a)\<lparr>lastReference := R\<rparr>" by simp
  have "lastReference (blocks c' i) \<noteq> lastReference (blocks c' a) \<and>
     (lastReference (blocks c' a) < lastReference (blocks c' i) \<longrightarrow> tag (blocks c' i) \<in> T)"
    if i: "windowBegin (policy c) A \<le> i" "i < windowEnd (policy c) A" "i \<noteq> a" "valid (blocks c' i)"
    for i
  proof -
    from i(3) b' have "blocks c' i = blocks c i" by simp
    with old [OF i(1-3)] i(4) sa show ?thesis by simp
  qed
  with k sa p' show ?thesis unfolding keeps_def by simp
qed

lemma victim_not_kept:
  assumes g: "goodCache c" and k: "keeps c A v a T"
    and fin: "finite T" and cd: "card T < unat (associativity (policy c))"
    and miss: "getBlockId c x = Inr None"
    and same: "getId (policy c) x = getId (policy c) A"
    and tx: "getTag (policy c) x \<in> T"
  shows "replaceIdOf c x \<noteq> a"
proof
  assume ra: "replaceIdOf c x = a"
  let ?p = "policy c"
  let ?wb = "windowBegin ?p A" and ?we = "windowEnd ?p A"
  from g have wf: "wellFormed c" and td: "tagsDistinct c" by (simp_all add: goodCache_def)
  from wf have pv: "isPolicyValid ?p = Inr True" by (simp add: wellFormed_def)
  note w = window_facts [OF pv, of A]
  note ws = window_same_id [OF same]
  from k have ka: "?wb \<le> a" "a < ?we" "valid (blocks c a)" by (simp_all add: keeps_def)
  have lt: "unat (getId ?p x * associativity ?p) < unat ((getId ?p x + 1) * associativity ?p)"
    using w(4) ws by (simp add: windowBegin_def windowEnd_def)
  note sp = getReplacementBlockId_spec [OF lt, of "replaceIdOf c x" "blocks c",
      unfolded replaceIdOf_def [symmetric], OF refl,
      folded windowBegin_def windowEnd_def, unfolded ra]
  have allv: "\<forall>i. windowBegin ?p x \<le> i \<and> i < windowEnd ?p x \<longrightarrow> valid (blocks c i)"
    using sp ka(3) by blast
  with sp have mn: "\<forall>i. windowBegin ?p x \<le> i \<and> i < windowEnd ?p x
      \<longrightarrow> lastReference (blocks c a) \<le> lastReference (blocks c i)" by blast
  let ?W = "{?wb..<?we} - {a}"
  let ?f = "\<lambda>i. tag (blocks c i)"
  have inW: "valid (blocks c i) \<and> ?f i \<in> T \<and> ?f i \<noteq> getTag ?p x"
    if "i \<in> ?W" for i
  proof -
    from that have i: "?wb \<le> i" "i < ?we" "i \<noteq> a" by auto
    with allv ws have vi: "valid (blocks c i)" by simp
    from mn i ws have le: "lastReference (blocks c a) \<le> lastReference (blocks c i)" by simp
    from k i vi have ne: "lastReference (blocks c i) \<noteq> lastReference (blocks c a)"
      and imp: "lastReference (blocks c a) < lastReference (blocks c i) \<longrightarrow> ?f i \<in> T"
      unfolding keeps_def by blast+
    from le ne have "lastReference (blocks c a) < lastReference (blocks c i)" by simp
    with imp have t: "?f i \<in> T" by simp
    from getBlockId_None [OF wf miss, of i] i ws vi have "?f i \<noteq> getTag ?p x" by simp
    with vi t show ?thesis by simp
  qed
  have inj: "inj_on ?f ?W"
  proof (rule inj_onI)
    fix i j assume ij: "i \<in> ?W" "j \<in> ?W" "?f i = ?f j"
    then have i: "?wb \<le> i \<and> i < ?we" and j: "?wb \<le> j \<and> j < ?we" by auto
    from window_iff [OF pv, of A i] window_iff [OF pv, of A j] i j
    have "i < unat (blockNum ?p)" "j < unat (blockNum ?p)"
      "i div unat (associativity ?p) = j div unat (associativity ?p)" by simp_all
    with td inW [OF ij(1)] inW [OF ij(2)] ij(3) show "i = j"
      unfolding tagsDistinct_def by metis
  qed
  have sub: "?f ` ?W \<subseteq> T - {getTag ?p x}" using inW by auto
  have "card ?W \<le> card (T - {getTag ?p x})"
    by (rule card_inj_on_le [OF inj sub]) (simp add: fin)
  moreover have "card ?W = unat (associativity ?p) - 1"
    using ka w(1,2) by simp
  moreover have "card (T - {getTag ?p x}) = card T - 1"
    using tx fin by simp
  moreover have "0 < card T" using tx fin by (auto simp: card_gt_0_iff)
  ultimately show False using cd by simp
qed

lemma keeps_read:
  assumes g: "goodCache c" and nw: "referenceCounter c \<noteq> - 1" and k: "keeps c A v a T"
    and fin: "finite T" and cd: "card T < unat (associativity (policy c))"
    and r: "getByte lower c l m x cyc pf = Inr (v', cyc', c', l', m')"
    and xt: "getId (policy c) x = getId (policy c) A \<Longrightarrow>
             getTag (policy c) x \<noteq> getTag (policy c) A \<Longrightarrow> getTag (policy c) x \<in> T"
  shows "keeps c' A v a T"
proof -
  let ?p = "policy c"
  from g have wf: "wellFormed c" and td: "tagsDistinct c" and rb: "refsBounded c"
    by (simp_all add: goodCache_def)
  from wf have pv: "isPolicyValid ?p = Inr True" by (simp add: wellFormed_def)
  note p' = getByte_wf(2) [OF wf r]
  from k have ka: "windowBegin ?p A \<le> a" "a < windowEnd ?p A" "valid (blocks c a)"
    "tag (blocks c a) = getTag ?p A" by (simp_all add: keeps_def)
  have old: "lastReference (blocks c i) \<noteq> referenceCounter c + 1 \<and>
      \<not> referenceCounter c + 1 < lastReference (blocks c i)"
    if "windowBegin ?p A \<le> i" "i < windowEnd ?p A" "valid (blocks c i)" for i
  proof -
    from window_div(2) [OF pv that(1,2)] that(3) rb
    have le: "lastReference (blocks c i) \<le> referenceCounter c" by (simp add: refsBounded_def)
    from word_le_succ [OF le nw] show ?thesis by auto
  qed
  from old [OF ka(1-3)] have olda: "referenceCounter c + 1 \<noteq> lastReference (blocks c a)" by auto
  from getByte_blocks(1) [OF wf r] consider
    (hit) b where "getBlockId c x = Inr (Some b)"
      "blocks c' = (blocks c)(b := (blocks c b)\<lparr>lastReference := referenceCounter c + 1\<rparr>)"
    | (fill) dat where "getBlockId c x = Inr None"
      "blocks c' = (blocks c)(replaceIdOf c x :=
          (newBlock ?p x dat)\<lparr>lastReference := referenceCounter c + 1\<rparr>)"
    by blast
  then show ?thesis
  proof cases
    case hit
    note sb = getBlockId_Some [OF wf hit(1)]
    show ?thesis
    proof (cases "b = a")
      case True
      from hit(2) show ?thesis unfolding True
        by (rule keeps_touch_self [OF k p']) (rule old)
    next
      case False
      have new: "lastReference ((blocks c b)\<lparr>lastReference := referenceCounter c + 1\<rparr>)
              \<noteq> lastReference (blocks c a) \<and>
            tag ((blocks c b)\<lparr>lastReference := referenceCounter c + 1\<rparr>) \<in> T"
        if inw: "windowBegin ?p A \<le> b" "b < windowEnd ?p A"
          and "valid ((blocks c b)\<lparr>lastReference := referenceCounter c + 1\<rparr>)"
      proof -
        from windows_disjoint [OF pv sb(1,2) inw] have same: "getId ?p x = getId ?p A" .
        have "getTag ?p x \<noteq> getTag ?p A"
        proof
          assume e: "getTag ?p x = getTag ?p A"
          from window_iff [OF pv, of A a] window_iff [OF pv, of A b] ka(1,2) inw
          have "a < unat (blockNum ?p)" "b < unat (blockNum ?p)"
            "a div unat (associativity ?p) = b div unat (associativity ?p)" by simp_all
          with td ka(3,4) sb(3,4) e have "a = b" unfolding tagsDistinct_def by metis
          with False show False by simp
        qed
        from xt [OF same this] sb(4) olda show ?thesis by simp
      qed
      show ?thesis
        by (rule keeps_update_other [OF k p' hit(2) False new])
    qed
  next
    case fill
    let ?r = "replaceIdOf c x"
    note rw = replaceIdOf_window [OF pv, of x]
    have tagT: "getTag ?p x \<in> T" if same: "getId ?p x = getId ?p A"
    proof -
      have "getTag ?p x \<noteq> getTag ?p A"
      proof
        assume e: "getTag ?p x = getTag ?p A"
        from getBlockId_None [OF wf fill(1), of a] ka window_same_id [OF same] e
        show False by simp
      qed
      from xt [OF same this] show ?thesis .
    qed
    have ne: "?r \<noteq> a"
    proof (cases "getId ?p x = getId ?p A")
      case True
      from victim_not_kept [OF g k fin cd fill(1) True tagT [OF True]] show ?thesis .
    next
      case False
      show ?thesis
      proof
        assume "?r = a"
        with rw ka(1,2) windows_disjoint [OF pv, of x a A] False show False by simp
      qed
    qed
    have new: "lastReference ((newBlock ?p x dat)\<lparr>lastReference := referenceCounter c + 1\<rparr>)
              \<noteq> lastReference (blocks c a) \<and>
          tag ((newBlock ?p x dat)\<lparr>lastReference := referenceCounter c + 1\<rparr>) \<in> T"
      if inw: "windowBegin ?p A \<le> ?r" "?r < windowEnd ?p A"
        and "valid ((newBlock ?p x dat)\<lparr>lastReference := referenceCounter c + 1\<rparr>)"
    proof -
      from windows_disjoint [OF pv rw inw] have same: "getId ?p x = getId ?p A" .
      from tagT [OF same] olda show ?thesis by simp
    qed
    show ?thesis
      by (rule keeps_update_other [OF k p' fill(2) ne new])
  qed
qed

lemma applyOps_append:
  "applyOps lower (xs @ ys) st =
     (case applyOps lower xs st of Inl e \<Rightarrow> Inl e | Inr st' \<Rightarrow> applyOps lower ys st')"
proof (induction xs arbitrary: st)
  case Nil
  then show ?case by simp
next
  case (Cons op xs)
  obtain c l m where st: "st = (c, l, m)" by (cases st)
  show ?case
    unfolding st using Cons.IH
    by (cases op) (simp_all split: sum.splits)
qed

lemma reads_keep:
  "goodCache c \<Longrightarrow> keeps c A v a T \<Longrightarrow> finite T \<Longrightarrow>
   card T < unat (associativity (policy c)) \<Longrightarrow>
   unat (referenceCounter c) + length reads < 2 ^ 32 \<Longrightarrow>
   (\<forall>x \<in> set (map fst reads). getId (policy c) x = getId (policy c) A \<and>
        getTag (policy c) x \<noteq> getTag (policy c) A \<longrightarrow> getTag (policy c) x \<in> T) \<Longrightarrow>
   applyOps lower (readOps reads) (c, l, m) = Inr (c', l', m') \<Longrightarrow>
   goodCache c' \<and> keeps c' A v a T"
proof (induction reads arbitrary: c l m)
  case Nil
  then show ?case by (simp add: readOps_def)
next
  case (Cons rd reads)
  obtain x cy f where rd: "rd = (x, cy, f)" by (cases rd)
  from Cons.prems(5) have s: "unat (referenceCounter c) + 1 < 2 ^ 32" by simp
  note u = unat_succ_u32 [OF s]
  from Cons.prems(7) rd obtain v1 cyc1 c1 l1 m1 where
    g: "getByte lower c l m x cy f = Inr (v1, cyc1, c1, l1, m1)"
    and r: "applyOps lower (readOps reads) (c1, l1, m1) = Inr (c', l', m')"
    by (auto simp: readOps_def split: sum.splits)
  note gg = getByte_good [OF Cons.prems(1) u(1) g]
  from Cons.prems(6) rd have xt: "getId (policy c) x = getId (policy c) A \<Longrightarrow>
      getTag (policy c) x \<noteq> getTag (policy c) A \<Longrightarrow> getTag (policy c) x \<in> T" by simp
  from keeps_read [OF Cons.prems(1) u(1) Cons.prems(2,3,4) g xt] have k1: "keeps c1 A v a T" .
  from gg(2) u(2) Cons.prems(5) have b1: "unat (referenceCounter c1) + length reads < 2 ^ 32"
    by simp
  from Cons.prems(6) gg(3) have t1: "\<forall>x \<in> set (map fst reads).
      getId (policy c1) x = getId (policy c1) A \<and>
        getTag (policy c1) x \<noteq> getTag (policy c1) A \<longrightarrow> getTag (policy c1) x \<in> T" by simp
  from Cons.prems(4) gg(3) have c1: "card T < unat (associativity (policy c1))" by simp
  from Cons.IH [OF gg(1) k1 Cons.prems(3) c1 b1 t1 r] show ?case .
qed

section \<open>Write, then read back\<close>

text \<open>Claim C9, amended: on a write-allocate cache, after any earlier accesses, a
  \<^verbatim>\<open>setByte\<close> of the value \<open>v\<close> at the address \<open>A\<close>, followed by reads (demand or prefetch)
  that bring fewer than \<open>associativity\<close> distinct conflicting blocks (blocks of the set of
  \<open>A\<close> other than the block of \<open>A\<close>), followed by \<^verbatim>\<open>getByte\<close> at \<open>A\<close>, returns \<open>v\<close>, as
  long as the reference counter does not wrap around (fewer than \<open>2^32\<close> accesses in
  all). Reads of other sets are unrestricted. The lower neighbour is any that does not
  fail.\<close>

theorem write_then_read_back:
  assumes n: "newCache p wb True = Inr c0" and t: "lowerTotal lower I" and i: "I l0"
    and len: "length history + length reads + 2 < 2 ^ 32"
    and cf: "length (conflictingBlocks p A (map fst reads)) < unat (associativity p)"
  shows "\<exists>c l m. applyOps lower (history @ Write A v cyc # readOps reads) (c0, l0, m0) = Inr (c, l, m) \<and>
     (\<exists>cyc' c' l' m'. getByte lower c l m A cyc2 pf = Inr (v, cyc', c', l', m'))"
proof -
  note g0 = newCache_good [OF n]
  from g0(1) have wf0: "wellFormed c0" by (simp add: goodCache_def)
  from applyOps_total [OF t wf0 i, of "history @ Write A v cyc # readOps reads" m0]
  obtain c l m where
    all: "applyOps lower (history @ Write A v cyc # readOps reads) (c0, l0, m0) = Inr (c, l, m)"
    by blast
  then obtain c1 l1 m1 where
    h: "applyOps lower history (c0, l0, m0) = Inr (c1, l1, m1)"
    and rest: "applyOps lower (Write A v cyc # readOps reads) (c1, l1, m1) = Inr (c, l, m)"
    by (auto simp: applyOps_append split: sum.splits)
  from rest obtain cyc1 c2 l2 m2 where
    w: "setByte lower c1 l1 m1 A v cyc = Inr (cyc1, c2, l2, m2)"
    and rd: "applyOps lower (readOps reads) (c2, l2, m2) = Inr (c, l, m)"
    by (auto split: sum.splits)
  from len g0(2) have "unat (referenceCounter c0) + length history < 2 ^ 32" by simp
  from applyOps_good [OF g0(1) this h] g0 have g1: "goodCache c1"
    and r1: "unat (referenceCounter c1) = length history"
    and p1: "policy c1 = p" and wa1: "writeAllocate c1" by simp_all
  from r1 len have "unat (referenceCounter c1) + 1 < 2 ^ 32" by simp
  note u1 = unat_succ_u32 [OF this]
  note g2 = setByte_good [OF g1 u1(1) w]
  let ?T = "set (conflictingBlocks p A (map fst reads))"
  from keeps_after_write [OF g1 u1(1) wa1 w, of ?T] obtain a where k2: "keeps c2 A v a ?T" ..
  have p2: "policy c2 = p" using g2(3) p1 by simp
  have "card ?T = length (conflictingBlocks p A (map fst reads))"
    unfolding conflictingBlocks_def by (rule distinct_card) (rule distinct_remdups)
  with cf p2 have cT: "card ?T < unat (associativity (policy c2))" by simp
  have b2: "unat (referenceCounter c2) + length reads < 2 ^ 32"
    using g2(2) u1(2) r1 len by simp
  have tT: "\<forall>x \<in> set (map fst reads). getId (policy c2) x = getId (policy c2) A \<and>
        getTag (policy c2) x \<noteq> getTag (policy c2) A \<longrightarrow> getTag (policy c2) x \<in> ?T"
    unfolding p2 by (auto simp: conflictingBlocks_def)
  from reads_keep [OF g2(1) k2 _ cT b2 tT rd] have "goodCache c" "keeps c A v a ?T" by simp_all
  from keeps_final [OF this, of lower l m cyc2 pf] all show ?thesis by blast
qed

text \<open>An eight-way cache: a read, the write of 9 at address 5, a read of the conflicting
  block at 32768 and a prefetch of another set.\<close>

theorem write_then_read_back_witness:
  "\<exists>c0 c l m cyc' c' l' m'.
     newCache l2policy True True = Inr c0 \<and>
     lowerTotal (None :: unit LowerCache option) (\<lambda>u. True) \<and>
     length [Read 0 None False] +
       length [(32768 :: u32, None :: u32 option, False), (64, None, True)] + 2 < (2 :: nat) ^ 32 \<and>
     length (conflictingBlocks l2policy 5 (map fst [(32768, None, False), (64 :: u32, None :: u32 option, True)]))
        < unat (associativity l2policy) \<and>
     applyOps None ([Read 0 None False] @ Write 5 9 None
         # readOps [(32768, None, False), (64, None, True)]) (c0, (), emptyMemory) = Inr (c, l, m) \<and>
     getByte None c l m 5 None False = Inr (9, cyc', c', l', m')"
proof -
  obtain c0 where c0: "newCache l2policy True True = Inr c0"
    using newCache_valid [OF l2policy_valid] by blast
  have t: "lowerTotal (None :: unit LowerCache option) (\<lambda>u. True)" by (rule lowerTotal_None)
  have len: "length [Read 0 None False] + length [(32768 :: u32, None :: u32 option, False), (64, None, True)] + 2
      < (2 :: nat) ^ 32" by simp
  have cf: "length (conflictingBlocks l2policy 5
        (map fst [(32768, None, False), (64 :: u32, None :: u32 option, True)]))
        < unat (associativity l2policy)"
    by (simp add: conflictingBlocks_def getId_def getTag_def shl32_def shr32_def policy_fields log2i_more log2i_numerals)
  from write_then_read_back [OF c0 t TrueI len cf, where v = 9 and cyc = None and ?m0.0 = emptyMemory and ?cyc2.0 = None and pf = False and ?l0.0 = "()"] c0 t len cf
  show ?thesis by blast
qed

text \<open>Claim C9 as stated fails: in a direct-mapped cache one conflicting block does not
  exceed the associativity (1), and reading it evicts the written block; the refill
  fetches only the first byte of the block, so the read of address 1 returns 0 where 5
  was written.\<close>

theorem write_lost_with_one_conflicting_block:
  "length (conflictingBlocks (oneBlockPolicy 1 10) 1 [64]) = 1 \<and>
   unat (associativity (oneBlockPolicy 1 10)) = 1 \<and>
   isPolicyValid (oneBlockPolicy 1 10) = Inr True \<and>
   applyOps None [Write 1 5 None, Read 64 None False]
     (projr (newCache (oneBlockPolicy 1 10) True True), (), emptyMemory) = Inr evictedWrite \<and>
   (case evictedWrite of (c, l, m) \<Rightarrow>
      map_sum id fst (getByte None c l m 1 None False)) = Inr 0"
  unfolding evictedWrite_def
  by (simp add: newCache_valid [OF oneBlockPolicy_valid] oneBlockPolicy_valid)
     (simp add: eval_defs oneBlockPolicy_def conflictingBlocks_def emptyMemory_def)

section \<open>Least recently used: a stream of distinct blocks\<close>










section \<open>The replacement choice\<close>



end
